theory Spec2Isabelle
  imports Main "HOL-Library.Word" "HOL-Library.Char_ord" "HOL-Library.List_Lexorder"
begin

section \<open>Data model of \<^verbatim>\<open>src/lib/offlineDb.ts\<close>\<close>

text \<open>
  The status union \<^verbatim>\<open>"pending" | "syncing" | "failed"\<close> and the two record interfaces.
  \<open>PendingTransaction\<close> is built in three layers, after the types the code takes it
  apart into: \<open>TransactionInput\<close> is the argument of \<^verbatim>\<open>addPendingTransaction\<close>
  (\<^verbatim>\<open>PendingTransaction\<close> without id, hash, status, retryCount, deviceId and timestamp),
  \<open>FullTx\<close> is \<^verbatim>\<open>Omit<PendingTransaction, "hash" | "id">\<close>, the argument of
  \<^verbatim>\<open>generateHash\<close>. Likewise \<open>RecipientInput\<close> is \<^verbatim>\<open>Omit<CachedRecipient, "cached_at">\<close>,
  the argument of \<^verbatim>\<open>cacheRecipient\<close>.
  The field \<^verbatim>\<open>id\<close> is written \<open>id_tx\<close> (pending transfers) and \<open>id_rc\<close> (cached
  recipients), since \<open>id\<close> is the identity function of HOL. The JavaScript number
  \<^verbatim>\<open>amount\<close> is kept abstract as the type parameter \<open>'n\<close>; \<^verbatim>\<open>timestamp\<close> is a count of
  milliseconds and \<^verbatim>\<open>retryCount\<close> a counter, both naturals. Strings are \<open>string\<close>
  (lists of characters with codes below 256, which covers the UUIDs, payment ids and
  digits the code puts into keys and hashes); the order on them is the lexicographic
  order on character codes, which is the order IndexedDB puts on string keys.
\<close>

datatype status = Pending | Syncing | Failed

record 'n TransactionInput =
  senderId :: string
  receiverId :: string
  receiverPhone :: "string option"
  amount :: 'n
  description :: "string option"

record 'n FullTx = "'n TransactionInput" +
  timestamp :: nat
  status :: status
  retryCount :: nat
  deviceId :: string

record 'n PendingTransaction = "'n FullTx" +
  id_tx :: string
  hash :: string

record RecipientInput =
  id_rc :: string
  user_id :: string
  display_name :: "string option"
  payment_id :: string

record CachedRecipient = RecipientInput +
  cached_at :: nat

text \<open>Values that the code throws: a rejected IndexedDB request, or an error of the
  remote ledger client.\<close>

datatype error = StorageUnavailable | RemoteError string

section \<open>The IndexedDB object stores\<close>

text \<open>
  An object store with \<^verbatim>\<open>keyPath: "id"\<close> holds at most one record per key and
  enumerates its records in ascending key order. It is modelled as the list of its
  records in that order; \<open>store_put\<close> is \<^verbatim>\<open>put\<close> (replace the record with the same key,
  or insert at the key's place), \<open>store_get\<close> is \<^verbatim>\<open>get\<close>, \<open>store_delete\<close> is
  \<^verbatim>\<open>delete\<close>. \<open>store_ok\<close> is the invariant that keys are strictly ascending.
\<close>

fun store_put :: "('a \<Rightarrow> string) \<Rightarrow> 'a \<Rightarrow> 'a list \<Rightarrow> 'a list" where
  "store_put key v [] = [v]"
| "store_put key v (x # xs) =
     (if key v = key x then v # xs
      else if key v < key x then v # x # xs
      else x # store_put key v xs)"

definition store_get :: "('a \<Rightarrow> string) \<Rightarrow> string \<Rightarrow> 'a list \<Rightarrow> 'a option" where
  "store_get key k xs = find (\<lambda>x. key x = k) xs"

definition store_delete :: "('a \<Rightarrow> string) \<Rightarrow> string \<Rightarrow> 'a list \<Rightarrow> 'a list" where
  "store_delete key k xs = filter (\<lambda>x. key x \<noteq> k) xs"

definition store_ok :: "('a \<Rightarrow> string) \<Rightarrow> 'a list \<Rightarrow> bool" where
  "store_ok key xs = sorted_wrt (<) (map key xs)"

text \<open>
  The database: the object stores \<^verbatim>\<open>pendingTransactions\<close> and \<^verbatim>\<open>cachedRecipients\<close>
  (\<^verbatim>\<open>offlineSettings\<close> plays no part in what follows), the \<^verbatim>\<open>offlinepay-device-id\<close>
  item of \<^verbatim>\<open>localStorage\<close>, and a fault script. The database is taken as opened
  (\<^verbatim>\<open>dbInstance\<close> set), so \<^verbatim>\<open>getDB()\<close> returns it without a request. Every request to
  IndexedDB consumes the head of \<open>faults\<close>; \<open>True\<close> means the request is rejected
  (the awaited promise throws) and leaves the stores as they were. An exhausted script
  means no further faults.
\<close>

record 'n db =
  pendingTransactions :: "'n PendingTransaction list"
  cachedRecipients :: "CachedRecipient list"
  deviceIdItem :: "string option"
  faults :: "bool list"

definition request :: "('n db \<Rightarrow> 'a \<times> 'n db) \<Rightarrow> 'n db \<Rightarrow> (error + 'a) \<times> 'n db" where
  "request op d =
     (case faults d of
        [] \<Rightarrow> (case op d of (a, d') \<Rightarrow> (Inr a, d'))
      | f # fs \<Rightarrow>
          if f then (Inl StorageUnavailable, d\<lparr>faults := fs\<rparr>)
          else (case op (d\<lparr>faults := fs\<rparr>) of (a, d') \<Rightarrow> (Inr a, d')))"

text \<open>Sequencing of awaited calls: an error of the first aborts the second.\<close>

definition and_then :: "('s \<Rightarrow> (error + 'a) \<times> 's) \<Rightarrow> ('a \<Rightarrow> 's \<Rightarrow> (error + 'b) \<times> 's)
    \<Rightarrow> 's \<Rightarrow> (error + 'b) \<times> 's" where
  "and_then m f s = (case m s of (Inl e, s') \<Rightarrow> (Inl e, s') | (Inr a, s') \<Rightarrow> f a s')"

definition db_get_tx :: "string \<Rightarrow> 'n db \<Rightarrow> (error + 'n PendingTransaction option) \<times> 'n db" where
  "db_get_tx k = request (\<lambda>d. (store_get id_tx k (pendingTransactions d), d))"

definition db_put_tx :: "'n PendingTransaction \<Rightarrow> 'n db \<Rightarrow> (error + unit) \<times> 'n db" where
  "db_put_tx t =
     request (\<lambda>d. ((), d\<lparr>pendingTransactions := store_put id_tx t (pendingTransactions d)\<rparr>))"

definition db_delete_tx :: "string \<Rightarrow> 'n db \<Rightarrow> (error + unit) \<times> 'n db" where
  "db_delete_tx k =
     request (\<lambda>d. ((), d\<lparr>pendingTransactions := store_delete id_tx k (pendingTransactions d)\<rparr>))"

definition db_getAll_tx :: "'n db \<Rightarrow> (error + 'n PendingTransaction list) \<times> 'n db" where
  "db_getAll_tx = request (\<lambda>d. (pendingTransactions d, d))"

text \<open>\<^verbatim>\<open>getAllFromIndex(store, index, value)\<close>: the records whose indexed field equals
  the value, in key order (all of them have the same index key).\<close>

definition db_getAllFromIndex_tx ::
    "('n PendingTransaction \<Rightarrow> 'k) \<Rightarrow> 'k \<Rightarrow> 'n db \<Rightarrow> (error + 'n PendingTransaction list) \<times> 'n db" where
  "db_getAllFromIndex_tx ix v =
     request (\<lambda>d. (filter (\<lambda>t. ix t = v) (pendingTransactions d), d))"

section \<open>Queue operations of \<^verbatim>\<open>offlineDb.ts\<close>\<close>

definition getPendingTransactions :: "'n db \<Rightarrow> (error + 'n PendingTransaction list) \<times> 'n db" where
  "getPendingTransactions = db_getAllFromIndex_tx status Pending"

definition updateTransactionStatus ::
    "string \<Rightarrow> status \<Rightarrow> bool \<Rightarrow> 'n db \<Rightarrow> (error + unit) \<times> 'n db" where
  "updateTransactionStatus k st incrementRetry =
     and_then (db_get_tx k) (\<lambda>r.
       case r of
         Some tx \<Rightarrow>
           db_put_tx ((tx\<lparr>status := st\<rparr>)
             \<lparr>retryCount := (if incrementRetry then retryCount tx + 1 else retryCount tx)\<rparr>)
       | None \<Rightarrow> (\<lambda>d. (Inr (), d)))"

definition deleteTransaction :: "string \<Rightarrow> 'n db \<Rightarrow> (error + unit) \<times> 'n db" where
  "deleteTransaction k = db_delete_tx k"

subsection \<open>Facts about the stores\<close>

lemma store_get_put:
  "store_get key k (store_put key v xs) = (if k = key v then Some v else store_get key k xs)"
  by (induction xs) (auto simp: store_get_def)

lemma store_put_keys:
  "set (map key (store_put key v xs)) = insert (key v) (set (map key xs))"
  by (induction xs) auto

lemma store_put_ok: "store_ok key xs \<Longrightarrow> store_ok key (store_put key v xs)"
proof (induction xs)
  case Nil
  then show ?case by (simp add: store_ok_def)
next
  case (Cons x xs)
  have tail: "store_ok key xs" using Cons.prems by (simp add: store_ok_def)
  have above: "\<forall>y\<in>set xs. key x < key y" using Cons.prems by (simp add: store_ok_def)
  show ?case
  proof (cases "key v = key x")
    case True
    then show ?thesis using Cons.prems by (simp add: store_ok_def)
  next
    case neq: False
    show ?thesis
    proof (cases "key v < key x")
      case True
      then show ?thesis using Cons.prems neq by (auto simp: store_ok_def)
    next
      case False
      then have lt: "key x < key v" using neq by auto
      have "\<forall>k\<in>set (map key (store_put key v xs)). key x < k"
        unfolding store_put_keys using lt above by auto
      then show ?thesis using Cons.IH [OF tail] neq False by (simp add: store_ok_def)
    qed
  qed
qed

lemma store_delete_ok: "store_ok key xs \<Longrightarrow> store_ok key (store_delete key k xs)"
  by (simp add: store_ok_def store_delete_def sorted_wrt_filter filter_map comp_def
      sorted_wrt_map)

lemma store_get_delete:
  "store_get key j (store_delete key k xs) = (if j = k then None else store_get key j xs)"
  by (induction xs) (auto simp: store_get_def store_delete_def)

lemma store_get_Some: "store_get key k xs = Some x \<Longrightarrow> x \<in> set xs \<and> key x = k"
  by (induction xs) (auto simp: store_get_def split: if_splits)

lemma store_get_mem:
  "store_ok key xs \<Longrightarrow> x \<in> set xs \<Longrightarrow> store_get key (key x) xs = Some x"
  by (induction xs) (auto simp: store_get_def store_ok_def)

lemma store_get_None: "store_get key k xs = None \<longleftrightarrow> (\<forall>x\<in>set xs. key x \<noteq> k)"
  by (induction xs) (auto simp: store_get_def)

lemma store_put_replace:
  "store_ok key xs \<Longrightarrow> store_get key (key v) xs \<noteq> None \<Longrightarrow>
   store_put key v xs = map (\<lambda>x. if key x = key v then v else x) xs"
proof (induction xs)
  case Nil
  then show ?case by (simp add: store_get_def)
next
  case (Cons x xs)
  have tail: "store_ok key xs" using Cons.prems by (simp add: store_ok_def)
  have above: "\<forall>y\<in>set xs. key x < key y" using Cons.prems by (simp add: store_ok_def)
  show ?case
  proof (cases "key v = key x")
    case True
    then have "\<forall>y\<in>set xs. key y \<noteq> key v" using above by auto
    then have "map (\<lambda>y. if key y = key v then v else y) xs = xs"
      by (induction xs) auto
    then show ?thesis using True by simp
  next
    case False
    then have got: "store_get key (key v) xs \<noteq> None"
      using Cons.prems(2) by (auto simp: store_get_def)
    then obtain y where "y \<in> set xs" "key y = key v"
      using store_get_Some by fastforce
    then have "key x < key v" using above by auto
    then have "\<not> key v < key x" by auto
    then show ?thesis using False Cons.IH [OF tail got] by auto
  qed
qed

lemma map_upd_absent:
  "\<forall>x\<in>set xs. key x \<noteq> k \<Longrightarrow> map (\<lambda>x. if key x = k then f x else x) xs = xs"
  by (induction xs) auto

lemma map_upd_present:
  "store_ok key xs \<Longrightarrow> store_get key k xs = Some t \<Longrightarrow>
   map (\<lambda>x. if key x = k then f x else x) xs = map (\<lambda>x. if key x = k then f t else x) xs"
proof (rule map_cong [OF refl])
  fix x assume ok: "store_ok key xs" and got: "store_get key k xs = Some t" and mem: "x \<in> set xs"
  show "(if key x = k then f x else x) = (if key x = k then f t else x)"
  proof (cases "key x = k")
    case True
    then have "store_get key k xs = Some x" using store_get_mem [OF ok mem] by simp
    then show ?thesis using got by simp
  next
    case False
    then show ?thesis by simp
  qed
qed

text \<open>The write of \<open>updateTransactionStatus\<close>, as a function on the store's records.\<close>

lemma put_updated_record:
  fixes f :: "'n PendingTransaction \<Rightarrow> 'n PendingTransaction"
  assumes ok: "store_ok id_tx xs" and got: "store_get id_tx k xs = Some t"
    and key: "id_tx (f t) = k"
  shows "store_put id_tx (f t) xs = map (\<lambda>x. if id_tx x = k then f x else x) xs"
proof -
  have "store_put id_tx (f t) xs = map (\<lambda>x. if id_tx x = id_tx (f t) then f t else x) xs"
    by (rule store_put_replace [OF ok]) (simp only: key got, simp)
  also have "\<dots> = map (\<lambda>x. if id_tx x = k then f x else x) xs"
    unfolding key by (rule map_upd_present [OF ok got, symmetric])
  finally show ?thesis .
qed

section \<open>Examples used to instantiate the theorems\<close>

definition tx_a :: "int PendingTransaction" where
  "tx_a = \<lparr>senderId = ''alice'', receiverId = ''bob'', receiverPhone = Some ''PAY-BOB'', amount = 100,
     description = None, timestamp = 1000, status = Pending, retryCount = 0,
     deviceId = ''dev-1'', id_tx = ''tx-1000-3e1a0e66'', hash = ''3e1a0e66''\<rparr>"

definition tx_b :: "int PendingTransaction" where
  "tx_b = \<lparr>senderId = ''alice'', receiverId = ''carol'', receiverPhone = None, amount = 250,
     description = Some ''rent'', timestamp = 2000, status = Failed, retryCount = 3,
     deviceId = ''dev-1'', id_tx = ''tx-2000-0000c3d4'', hash = ''0000c3d4''\<rparr>"

definition tx_c :: "int PendingTransaction" where
  "tx_c = \<lparr>senderId = ''alice'', receiverId = ''dave'', receiverPhone = None, amount = 40,
     description = None, timestamp = 3000, status = Syncing, retryCount = 1,
     deviceId = ''dev-2'', id_tx = ''tx-3000-0000e5f6'', hash = ''0000e5f6''\<rparr>"

definition db_abc :: "int db" where
  "db_abc = \<lparr>pendingTransactions = [tx_a, tx_b, tx_c], cachedRecipients = [],
     deviceIdItem = Some ''dev-1'', faults = []\<rparr>"

lemma db_abc_ok: "store_ok id_tx (pendingTransactions db_abc)"
  by (simp add: db_abc_def tx_a_def tx_b_def tx_c_def store_ok_def)

section \<open>Status updates (claim C8)\<close>

text \<open>
  Claim C8. \<open>updateTransactionStatus\<close> (the spec's \<open>setStatus\<close>) changes nothing when no
  record has the given id. When one has and the call returns, the store is the old one
  with that record's status set and its retry count raised by one exactly when
  \<open>incrementRetry\<close> holds: no other field of the record and no other record changes, and
  no record appears or disappears. When the call throws instead (a rejected request), the
  store is unchanged; without a storage fault the call returns. The recipient cache and
  the device id item are never touched.
\<close>

theorem updateTransactionStatus_effect:
  assumes ok: "store_ok id_tx (pendingTransactions d)"
    and run: "updateTransactionStatus k st inc d = (r, d')"
  shows "(store_get id_tx k (pendingTransactions d) = None \<longrightarrow>
            pendingTransactions d' = pendingTransactions d)
       \<and> (r = Inr () \<longrightarrow>
            pendingTransactions d' =
              map (\<lambda>x. if id_tx x = k
                        then x\<lparr>status := st,
                               retryCount := (if inc then retryCount x + 1 else retryCount x)\<rparr>
                        else x) (pendingTransactions d))
       \<and> (r \<noteq> Inr () \<longrightarrow> pendingTransactions d' = pendingTransactions d)
       \<and> (faults d = [] \<longrightarrow> r = Inr ())
       \<and> cachedRecipients d' = cachedRecipients d \<and> deviceIdItem d' = deviceIdItem d"
proof (cases "store_get id_tx k (pendingTransactions d)")
  case None
  then have "\<forall>x\<in>set (pendingTransactions d). id_tx x \<noteq> k" by (simp add: store_get_None)
  note absent = map_upd_absent [OF this]
  show ?thesis using run None
    by (auto simp: absent updateTransactionStatus_def and_then_def db_get_tx_def request_def
        split: list.splits if_splits)
next
  case (Some t)
  let ?f = "\<lambda>x::'a PendingTransaction. x\<lparr>status := st,
                 retryCount := (if inc then retryCount x + 1 else retryCount x)\<rparr>"
  have k: "id_tx (?f t) = k" using store_get_Some [OF Some] by simp
  note put = put_updated_record [where f = ?f, OF ok Some k]
  show ?thesis using run Some put
    by (auto simp: updateTransactionStatus_def and_then_def db_get_tx_def db_put_tx_def request_def
        split: list.splits if_splits)
qed

theorem updateTransactionStatus_effect_witness:
  "store_ok id_tx (pendingTransactions db_abc)
   \<and> updateTransactionStatus ''tx-1000-3e1a0e66'' Failed True db_abc
       = (Inr (), db_abc\<lparr>pendingTransactions :=
             [tx_a\<lparr>status := Failed, retryCount := 1\<rparr>, tx_b, tx_c]\<rparr>)
   \<and> updateTransactionStatus ''tx-9'' Failed True db_abc = (Inr (), db_abc)"
proof -
  have run: "updateTransactionStatus ''tx-1000-3e1a0e66'' Failed True db_abc
       = (Inr (), db_abc\<lparr>pendingTransactions :=
             [tx_a\<lparr>status := Failed, retryCount := 1\<rparr>, tx_b, tx_c]\<rparr>)"
    by (simp add: updateTransactionStatus_def and_then_def db_get_tx_def db_put_tx_def request_def
        store_get_def db_abc_def tx_a_def tx_b_def tx_c_def)
  have noop: "updateTransactionStatus ''tx-9'' Failed True db_abc = (Inr (), db_abc)"
    by (simp add: updateTransactionStatus_def and_then_def db_get_tx_def request_def
        store_get_def db_abc_def tx_a_def tx_b_def tx_c_def)
  show ?thesis
    using updateTransactionStatus_effect [OF db_abc_ok run] db_abc_ok run noop by simp
qed

section \<open>Purging finished records (claim C4)\<close>

text \<open>
  \<open>clearSyncedTransactions\<close> (the spec's \<open>purgeFinished\<close>) reads all records, then deletes
  inside one read-write transaction every record whose status is neither pending nor
  syncing, and awaits the transaction's completion. A rejected request aborts the
  transaction, which restores the store.
\<close>

fun deleteFinished :: "'n PendingTransaction list \<Rightarrow> 'n db \<Rightarrow> (error + unit) \<times> 'n db" where
  "deleteFinished [] d = (Inr (), d)"
| "deleteFinished (item # rest) d =
     (if status item \<noteq> Pending \<and> status item \<noteq> Syncing
      then (case db_delete_tx (id_tx item) d of
              (Inl e, d') \<Rightarrow> (Inl e, d')
            | (Inr u, d') \<Rightarrow> deleteFinished rest d')
      else deleteFinished rest d)"

definition clearSyncedTransactions :: "'n db \<Rightarrow> (error + unit) \<times> 'n db" where
  "clearSyncedTransactions d =
     (case db_getAll_tx d of
        (Inl e, d1) \<Rightarrow> (Inl e, d1)
      | (Inr all, d1) \<Rightarrow>
          (case and_then (deleteFinished all) (\<lambda>u. request (\<lambda>d. ((), d))) d1 of
             (Inl e, d2) \<Rightarrow> (Inl e, d2\<lparr>pendingTransactions := pendingTransactions d1\<rparr>)
           | (Inr u, d2) \<Rightarrow> (Inr (), d2)))"

lemma store_ok_inj:
  "store_ok key xs \<Longrightarrow> x \<in> set xs \<Longrightarrow> y \<in> set xs \<Longrightarrow> key x = key y \<Longrightarrow> x = y"
proof -
  assume ok: "store_ok key xs" and x: "x \<in> set xs" and y: "y \<in> set xs" and k: "key x = key y"
  have "store_get key (key y) xs = Some x" using store_get_mem [OF ok x] k by simp
  moreover have "store_get key (key y) xs = Some y" by (rule store_get_mem [OF ok y])
  ultimately show ?thesis by simp
qed

lemma deleteFinished_store:
  "deleteFinished items d = (Inr (), d') \<Longrightarrow>
   pendingTransactions d' =
     filter (\<lambda>x. id_tx x \<notin> id_tx ` {i \<in> set items. status i \<noteq> Pending \<and> status i \<noteq> Syncing})
       (pendingTransactions d)
   \<and> cachedRecipients d' = cachedRecipients d \<and> deviceIdItem d' = deviceIdItem d"
proof (induction items arbitrary: d)
  case Nil
  then show ?case by simp
next
  case (Cons item rest)
  show ?case
  proof (cases "status item \<noteq> Pending \<and> status item \<noteq> Syncing")
    case True
    then obtain d1 where del: "db_delete_tx (id_tx item) d = (Inr (), d1)"
      and rest: "deleteFinished rest d1 = (Inr (), d')"
      using Cons.prems by (auto split: prod.splits sum.splits)
    have d1: "pendingTransactions d1 = store_delete id_tx (id_tx item) (pendingTransactions d)
        \<and> cachedRecipients d1 = cachedRecipients d \<and> deviceIdItem d1 = deviceIdItem d"
      using del by (auto simp: db_delete_tx_def request_def split: list.splits if_splits)
    show ?thesis using Cons.IH [OF rest] d1 True
      by (auto simp: store_delete_def intro!: filter_cong)
  next
    case False
    then have rest: "deleteFinished rest d = (Inr (), d')" using Cons.prems by auto
    show ?thesis using Cons.IH [OF rest] False by (auto intro!: filter_cong)
  qed
qed

lemma deleteFinished_no_fault:
  "faults d = [] \<Longrightarrow> \<exists>d'. deleteFinished items d = (Inr (), d') \<and> faults d' = []"
  by (induction items arbitrary: d) (auto simp: db_delete_tx_def request_def)

lemma purge_filter:
  assumes ok: "store_ok id_tx xs"
  shows "filter (\<lambda>x. id_tx x \<notin> id_tx ` {i \<in> set xs. status i \<noteq> Pending \<and> status i \<noteq> Syncing}) xs
       = filter (\<lambda>t. status t = Pending \<or> status t = Syncing) xs"
proof (rule filter_cong [OF refl])
  fix x assume mem: "x \<in> set xs"
  show "(id_tx x \<notin> id_tx ` {i \<in> set xs. status i \<noteq> Pending \<and> status i \<noteq> Syncing})
      = (status x = Pending \<or> status x = Syncing)"
    using store_ok_inj [OF ok _ mem] mem by (auto simp: image_iff)
qed

text \<open>
  Claim C4. On every well-formed store, when \<open>clearSyncedTransactions\<close> returns, the store
  holds exactly the records that were pending or syncing, in their old order and
  unchanged: every failed record is gone. When it throws, the store is as before. In
  both cases every pending and every syncing record is still there. Without a storage
  fault the call returns.
\<close>

theorem clearSyncedTransactions_effect:
  assumes ok: "store_ok id_tx (pendingTransactions d)"
    and run: "clearSyncedTransactions d = (r, d')"
  shows "(r = Inr () \<longrightarrow>
            pendingTransactions d' =
              filter (\<lambda>t. status t = Pending \<or> status t = Syncing) (pendingTransactions d))
       \<and> (r \<noteq> Inr () \<longrightarrow> pendingTransactions d' = pendingTransactions d)
       \<and> (\<forall>t\<in>set (pendingTransactions d).
            status t = Pending \<or> status t = Syncing \<longrightarrow> t \<in> set (pendingTransactions d'))
       \<and> (r = Inr () \<longrightarrow> (\<forall>t\<in>set (pendingTransactions d'). status t \<noteq> Failed))
       \<and> (faults d = [] \<longrightarrow> r = Inr ())"
proof -
  have succ: "pendingTransactions d' =
       filter (\<lambda>t. status t = Pending \<or> status t = Syncing) (pendingTransactions d)"
    if r: "r = Inr ()"
  proof -
    obtain d1 where all: "db_getAll_tx d = (Inr (pendingTransactions d), d1)"
        and same: "pendingTransactions d1 = pendingTransactions d"
      using run r unfolding clearSyncedTransactions_def db_getAll_tx_def request_def
      by (auto split: list.splits if_splits prod.splits sum.splits)
    obtain d2 where "deleteFinished (pendingTransactions d) d1 = (Inr (), d2)"
        and "pendingTransactions d' = pendingTransactions d2"
      using run r all unfolding clearSyncedTransactions_def and_then_def request_def
      by (auto split: list.splits if_splits prod.splits sum.splits)
    then show ?thesis
      using deleteFinished_store [of "pendingTransactions d" d1 d2] same purge_filter [OF ok]
      by simp
  qed
  have fail: "pendingTransactions d' = pendingTransactions d" if r: "r \<noteq> Inr ()"
    using run r unfolding clearSyncedTransactions_def db_getAll_tx_def request_def
    by (auto split: list.splits if_splits prod.splits sum.splits)
  have nofault: "r = Inr ()" if f: "faults d = []"
  proof -
    have all: "db_getAll_tx d = (Inr (pendingTransactions d), d)"
      using f by (simp add: db_getAll_tx_def request_def)
    obtain d2 where "deleteFinished (pendingTransactions d) d = (Inr (), d2)" "faults d2 = []"
      using deleteFinished_no_fault [OF f] by blast
    then show ?thesis
      using run all by (simp add: clearSyncedTransactions_def and_then_def request_def)
  qed
  show ?thesis
  proof (cases "r = Inr ()")
    case True
    then show ?thesis using succ by auto
  next
    case False
    then show ?thesis using fail nofault by auto
  qed
qed

theorem clearSyncedTransactions_effect_witness:
  "store_ok id_tx (pendingTransactions db_abc)
   \<and> clearSyncedTransactions db_abc = (Inr (), db_abc\<lparr>pendingTransactions := [tx_a, tx_c]\<rparr>)
   \<and> status tx_a = Pending \<and> status tx_b = Failed \<and> status tx_c = Syncing"
proof -
  have run: "clearSyncedTransactions db_abc = (Inr (), db_abc\<lparr>pendingTransactions := [tx_a, tx_c]\<rparr>)"
    by (simp add: clearSyncedTransactions_def db_getAll_tx_def db_delete_tx_def and_then_def
        request_def store_delete_def db_abc_def tx_a_def tx_b_def tx_c_def)
  show ?thesis
    using clearSyncedTransactions_effect [OF db_abc_ok run] db_abc_ok run
    by (simp add: tx_a_def tx_b_def tx_c_def)
qed

section \<open>The daily offline total (claim C9)\<close>

text \<open>
  \<open>getTodayOfflineTotal\<close> reads the sender's records through the \<^verbatim>\<open>by-sender\<close> index,
  keeps those created at or after the start of the day and not failed, and adds up
  their amounts from 0 with \<^verbatim>\<open>reduce\<close>. The parameter \<open>todayStart\<close> is what
  \<^verbatim>\<open>today.getTime()\<close> gives after \<^verbatim>\<open>today.setHours(0, 0, 0, 0)\<close>: the host's local
  midnight, in milliseconds.
\<close>

definition getTodayOfflineTotal ::
    "nat \<Rightarrow> string \<Rightarrow> ('n::{plus,zero}) db \<Rightarrow> (error + 'n) \<times> 'n db" where
  "getTodayOfflineTotal todayStart userId =
     and_then (db_getAllFromIndex_tx senderId userId) (\<lambda>transactions d.
       (Inr (foldl (\<lambda>sum tx. sum + amount tx) 0
               (filter (\<lambda>tx. timestamp tx \<ge> todayStart \<and> status tx \<noteq> Failed) transactions)),
        d))"

text \<open>
  Where addition is that of an additive monoid (exact arithmetic), the left fold is the
  sum of the list. The amounts of the program are JavaScript numbers, whose addition is
  not associative, so the claim below is stated for the fold itself.
\<close>

lemma foldl_plus_sum_list:
  fixes a :: "'n::monoid_add"
  shows "foldl (\<lambda>sum x. sum + f x) a xs = a + sum_list (map f xs)"
  by (induction xs arbitrary: a) (simp_all add: add.assoc)

text \<open>
  Claim C9. When \<open>getTodayOfflineTotal\<close> returns, its value is the sum of the amounts
  of exactly the stored records whose sender is the user, whose timestamp is at or after
  the day boundary and whose status is not failed (so pending and syncing ones count).
  The sum is the one the code computes: starting from 0, the amounts are added one by
  one, from the left, in the order of the store (ascending record identifier). Nothing
  is assumed of the addition and of 0, so the statement holds for floating-point
  amounts as well. The call changes no store, and it returns whenever no storage fault
  occurs.
\<close>

theorem getTodayOfflineTotal_sum:
  fixes d :: "('n::{plus,zero}) db"
  assumes run: "getTodayOfflineTotal todayStart userId d = (r, d')"
  shows "(r = Inl StorageUnavailable \<or>
          r = Inr (foldl (\<lambda>sum t. sum + amount t) 0
                 (filter (\<lambda>t. senderId t = userId \<and> todayStart \<le> timestamp t \<and> status t \<noteq> Failed)
                    (pendingTransactions d))))
       \<and> (faults d = [] \<longrightarrow> r \<noteq> Inl StorageUnavailable)
       \<and> pendingTransactions d' = pendingTransactions d
       \<and> cachedRecipients d' = cachedRecipients d"
proof -
  have flt: "filter (\<lambda>tx. todayStart \<le> timestamp tx \<and> status tx \<noteq> Failed)
               (filter (\<lambda>tx. senderId tx = userId) xs)
           = filter (\<lambda>t. senderId t = userId \<and> todayStart \<le> timestamp t \<and> status t \<noteq> Failed) xs"
    for xs :: "'n PendingTransaction list"
    by (induction xs) auto
  show ?thesis
    using run
    by (auto simp: getTodayOfflineTotal_def and_then_def db_getAllFromIndex_tx_def request_def flt
        split: list.splits if_splits)
qed

theorem getTodayOfflineTotal_sum_witness:
  "getTodayOfflineTotal 500 ''alice'' db_abc = (Inr 140, db_abc)
   \<and> foldl (\<lambda>sum t. sum + amount t) 0
       (filter (\<lambda>t. senderId t = ''alice'' \<and> 500 \<le> timestamp t \<and> status t \<noteq> Failed)
        (pendingTransactions db_abc)) = 140
   \<and> faults db_abc = []"
proof -
  have run: "getTodayOfflineTotal 500 ''alice'' db_abc = (Inr 140, db_abc)"
    by (simp add: getTodayOfflineTotal_def and_then_def db_getAllFromIndex_tx_def request_def
        db_abc_def tx_a_def tx_b_def tx_c_def)
  show ?thesis
    using getTodayOfflineTotal_sum [OF run] run
    by (simp add: db_abc_def tx_a_def tx_b_def tx_c_def)
qed

section \<open>The integrity hash and \<open>addPendingTransaction\<close>\<close>

unbundle bit_operations_syntax

text \<open>
  Rendering of numbers. \<open>show_nat\<close> is the decimal form of a non-negative integer (what
  a template literal makes of \<^verbatim>\<open>timestamp\<close>), \<open>toHex\<close> is \<^verbatim>\<open>toString(16)\<close> on a
  non-negative integer, \<open>padStart\<close> is \<^verbatim>\<open>String.prototype.padStart\<close> with a one-character
  filler. How a template literal renders the number \<^verbatim>\<open>amount\<close> is the parameter
  \<open>showNumber\<close> of \<open>generateHash\<close>.
\<close>

definition digit_char :: "nat \<Rightarrow> char" where
  "digit_char n = ''0123456789abcdef'' ! n"

fun show_nat :: "nat \<Rightarrow> string" where
  "show_nat n = (if n < 10 then [digit_char n] else show_nat (n div 10) @ [digit_char (n mod 10)])"

fun toHex :: "nat \<Rightarrow> string" where
  "toHex n = (if n < 16 then [digit_char n] else toHex (n div 16) @ [digit_char (n mod 16)])"

declare show_nat.simps [simp del] toHex.simps [simp del]

definition padStart :: "nat \<Rightarrow> char \<Rightarrow> string \<Rightarrow> string" where
  "padStart n c s = replicate (n - length s) c @ s"

text \<open>
  One round of the loop of \<^verbatim>\<open>generateHash\<close>. \<^verbatim>\<open>hash\<close> is an int32 at the head of every
  round; \<^verbatim>\<open>(hash << 5) - hash + char\<close> is computed exactly (it stays far below
  \<open>2^53\<close>) and \<^verbatim>\<open>hash & hash\<close> brings it back to an int32, that is, reduces it modulo
  \<open>2^32\<close>. On \<open>32 word\<close> this is the same arithmetic; \<open>sint\<close> reads the int32.
  A character is its code unit (\<open>of_char\<close>).
\<close>

definition hashStep :: "32 word \<Rightarrow> char \<Rightarrow> 32 word" where
  "hashStep h c = (let h' = push_bit 5 h - h + of_nat (of_char c) in h' AND h')"

definition generateHash :: "('n \<Rightarrow> string) \<Rightarrow> ('n, 'z) FullTx_scheme \<Rightarrow> string" where
  "generateHash showNumber tx =
     (let data = senderId tx @ '':'' @ receiverId tx @ '':'' @ showNumber (amount tx) @ '':''
                 @ show_nat (timestamp tx) @ '':'' @ deviceId tx;
          h = foldl hashStep 0 data
      in padStart 8 (CHR ''0'') (toHex (nat \<bar>sint h\<bar>)))"

text \<open>
  \<open>getDeviceId\<close>: the stored item when it is a non-empty string, else a fresh UUID
  (the parameter \<open>uuid\<close>, what \<^verbatim>\<open>crypto.randomUUID()\<close> returns), which is stored.
\<close>

definition getDeviceId :: "string \<Rightarrow> 'n db \<Rightarrow> string \<times> 'n db" where
  "getDeviceId uuid d =
     (case deviceIdItem d of
        Some v \<Rightarrow> if v \<noteq> [] then (v, d) else (uuid, d\<lparr>deviceIdItem := Some uuid\<rparr>)
      | None \<Rightarrow> (uuid, d\<lparr>deviceIdItem := Some uuid\<rparr>))"

text \<open>
  \<open>addPendingTransaction\<close> (the spec's \<open>enqueue\<close>). \<open>now\<close> is the value of
  \<^verbatim>\<open>Date.now()\<close>. The two object spreads are the two record extensions.
\<close>

definition addPendingTransaction ::
    "('n \<Rightarrow> string) \<Rightarrow> string \<Rightarrow> nat \<Rightarrow> 'n TransactionInput \<Rightarrow> 'n db
      \<Rightarrow> (error + 'n PendingTransaction) \<times> 'n db" where
  "addPendingTransaction showNumber uuid now tx d0 =
     (case getDeviceId uuid d0 of
        (dev, d) \<Rightarrow>
          (let fullTx = TransactionInput.extend tx (FullTx.fields now Pending 0 dev);
               h = generateHash showNumber fullTx;
               ident = ''tx-'' @ show_nat now @ ''-'' @ take 8 h;
               transaction = FullTx.extend fullTx (PendingTransaction.fields ident h)
           in and_then (db_put_tx transaction) (\<lambda>u d'. (Inr transaction, d')) d))"

text \<open>Rendering of an integer amount, for the examples.\<close>

definition show_int :: "int \<Rightarrow> string" where
  "show_int i = (if i < 0 then ''-'' @ show_nat (nat (- i)) else show_nat (nat i))"

subsection \<open>The hash is eight characters long\<close>

lemma toHex_length: "0 < k \<Longrightarrow> n < 16 ^ k \<Longrightarrow> length (toHex n) \<le> k"
proof (induction n arbitrary: k rule: toHex.induct)
  case (1 n)
  show ?case
  proof (cases "n < 16")
    case True
    then show ?thesis using "1.prems" by (simp add: toHex.simps)
  next
    case False
    obtain j where k: "k = Suc j" using "1.prems"(1) by (cases k) auto
    have j: "0 < j"
    proof (rule ccontr)
      assume "\<not> 0 < j"
      then show False using "1.prems"(2) False k by simp
    qed
    have "n div 16 < 16 ^ j" using "1.prems"(2) k by (simp add: less_mult_imp_div_less)
    then have "length (toHex (n div 16)) \<le> j" using "1.IH" False j by simp
    then show ?thesis using False k by (simp add: toHex.simps [of n])
  qed
qed

lemma abs_sint32: "nat \<bar>sint (h :: 32 word)\<bar> < 16 ^ 8"
proof -
  have "- (2 ^ 31) \<le> sint h" "sint h < 2 ^ 31"
    using sint_ge [of h] sint_lt [of h] by simp_all
  then show ?thesis by simp
qed

lemma generateHash_length: "length (generateHash showNumber tx) = 8"
proof -
  have "length (toHex (nat \<bar>sint h\<bar>)) \<le> 8" for h :: "32 word"
    by (rule toHex_length [OF _ abs_sint32]) simp
  then show ?thesis by (simp add: generateHash_def padStart_def Let_def)
qed

subsection \<open>Decimal rendering is injective\<close>

lemma digit_char_inj: "a < 16 \<Longrightarrow> b < 16 \<Longrightarrow> digit_char a = digit_char b \<Longrightarrow> a = b"
proof -
  assume a: "a < 16" and b: "b < 16" and eq: "digit_char a = digit_char b"
  have "distinct ''0123456789abcdef''" by simp
  then show ?thesis
    using a b eq unfolding digit_char_def by (simp add: nth_eq_iff_index_eq)
qed

lemma show_nat_nonempty: "show_nat n \<noteq> []"
  by (simp add: show_nat.simps [of n])

lemma show_nat_inj: "show_nat a = show_nat b \<Longrightarrow> a = b"
proof (induction a arbitrary: b rule: show_nat.induct)
  case (1 a)
  show ?case
  proof (cases "a < 10")
    case small_a: True
    show ?thesis
    proof (cases "b < 10")
      case True
      then show ?thesis
        using "1.prems" small_a digit_char_inj [of a b]
        by (simp add: show_nat.simps [of a] show_nat.simps [of b])
    next
      case False
      then show ?thesis
        using "1.prems" small_a show_nat_nonempty [of "b div 10"]
        by (simp add: show_nat.simps [of a] show_nat.simps [of b])
    qed
  next
    case big_a: False
    show ?thesis
    proof (cases "b < 10")
      case True
      then show ?thesis
        using "1.prems" big_a show_nat_nonempty [of "a div 10"]
        by (simp add: show_nat.simps [of a] show_nat.simps [of b])
    next
      case False
      then have eqs: "show_nat (a div 10) = show_nat (b div 10)"
          "digit_char (a mod 10) = digit_char (b mod 10)"
        using "1.prems" big_a by (simp_all add: show_nat.simps [of a] show_nat.simps [of b])
      have "a div 10 = b div 10" using "1.IH" big_a eqs(1) by simp
      moreover have "a mod 10 = b mod 10"
        using digit_char_inj [of "a mod 10" "b mod 10"] eqs(2) by simp
      ultimately show ?thesis by (metis div_mult_mod_eq)
    qed
  qed
qed

section \<open>The sync engine of \<^verbatim>\<open>src/lib/syncEngine.ts\<close>\<close>

text \<open>
  The remote ledger is reached through two calls of the Supabase client. Their
  behaviour is a parameter: a ledger is a pair of functions on a remote state \<open>'r\<close>.
  \<open>selectByHash\<close> is the query \<^verbatim>\<open>from("transactions").select("id").eq("transaction_hash", h).maybeSingle()\<close>;
  its reply is the \<^verbatim>\<open>data\<close> field (a row's id or null), the only field the code reads.
  \<open>rpcProcess\<close> is \<^verbatim>\<open>rpc("process_transaction", args)\<close>; its reply is the pair of
  \<^verbatim>\<open>data\<close> and \<^verbatim>\<open>error\<close>. Either call may also throw (\<open>Inl\<close>).
\<close>

record 'n rpc_args =
  arg_sender_id :: string
  arg_receiver_id :: string
  arg_amount :: 'n
  arg_description :: "string option"
  arg_is_offline :: bool
  arg_transaction_hash :: string
  arg_device_id :: string

record ('n, 'r) ledger =
  selectByHash :: "string \<Rightarrow> 'r \<Rightarrow> (error + string option) \<times> 'r"
  rpcProcess :: "'n rpc_args \<Rightarrow> 'r \<Rightarrow> (error + string option \<times> error option) \<times> 'r"

text \<open>The remote calls made, each with its reply, in the order they were made.\<close>

datatype 'n remote_call =
    DuplicateCheck string "error + string option"
  | ProcessTransfer "'n rpc_args" "error + string option \<times> error option"

datatype phase = NotifySyncing | NotifySuccess | NotifyError

text \<open>
  The module state (\<^verbatim>\<open>isSyncing\<close>, \<^verbatim>\<open>syncCallback\<close>) with the database, the remote
  state, and two logs: the calls made to the registered callback (observer, phase,
  message, count) and the remote calls. A registered callback is \<open>Some\<close> of a name for
  it. The locals \<^verbatim>\<open>synced\<close> and \<^verbatim>\<open>failed\<close> of a pass extend the state while a pass runs.
\<close>

record ('n, 'r) world =
  store :: "'n db"
  isSyncing :: bool
  syncCallback :: "nat option"
  notified :: "(nat \<times> phase \<times> string \<times> int) list"
  remote :: 'r
  calls :: "'n remote_call list"

record ('n, 'r) pass = "('n, 'r) world" +
  synced :: int
  failed :: int

definition setSyncCallback :: "nat option \<Rightarrow> ('n, 'r, 'z) world_scheme \<Rightarrow> ('n, 'r, 'z) world_scheme" where
  "setSyncCallback callback w = w\<lparr>syncCallback := callback\<rparr>"

text \<open>\<^verbatim>\<open>syncCallback?.(status, message, count)\<close>\<close>

definition notify :: "phase \<Rightarrow> string \<Rightarrow> int \<Rightarrow> ('n, 'r, 'z) world_scheme \<Rightarrow> ('n, 'r, 'z) world_scheme" where
  "notify ph message count w =
     (case syncCallback w of
        None \<Rightarrow> w
      | Some cb \<Rightarrow> w\<lparr>notified := notified w @ [(cb, ph, message, count)]\<rparr>)"

text \<open>A call of \<^verbatim>\<open>offlineDb.ts\<close> made from the engine.\<close>

definition onStore :: "('n db \<Rightarrow> (error + 'a) \<times> 'n db) \<Rightarrow> ('n, 'r, 'z) world_scheme
    \<Rightarrow> (error + 'a) \<times> ('n, 'r, 'z) world_scheme" where
  "onStore f w = (case f (store w) of (r, d') \<Rightarrow> (r, w\<lparr>store := d'\<rparr>))"

definition duplicateCheck :: "('n, 'r) ledger \<Rightarrow> string \<Rightarrow> ('n, 'r, 'z) world_scheme
    \<Rightarrow> (error + string option) \<times> ('n, 'r, 'z) world_scheme" where
  "duplicateCheck L h w =
     (case selectByHash L h (remote w) of
        (reply, r') \<Rightarrow> (reply, w\<lparr>remote := r', calls := calls w @ [DuplicateCheck h reply]\<rparr>))"

text \<open>The call of \<^verbatim>\<open>process_transaction\<close> with \<^verbatim>\<open>if (error) throw error\<close>.\<close>

definition processTransaction :: "('n, 'r) ledger \<Rightarrow> 'n rpc_args \<Rightarrow> ('n, 'r, 'z) world_scheme
    \<Rightarrow> (error + string option) \<times> ('n, 'r, 'z) world_scheme" where
  "processTransaction L args w =
     (case rpcProcess L args (remote w) of
        (reply, r') \<Rightarrow>
          (case reply of
             Inl e \<Rightarrow> Inl e
           | Inr (data, Some err) \<Rightarrow> Inl err
           | Inr (data, None) \<Rightarrow> Inr data,
           w\<lparr>remote := r', calls := calls w @ [ProcessTransfer args reply]\<rparr>))"

definition rpcArgs :: "'n PendingTransaction \<Rightarrow> 'n rpc_args" where
  "rpcArgs tx =
     \<lparr>arg_sender_id = senderId tx, arg_receiver_id = receiverId tx, arg_amount = amount tx,
      arg_description = (case description tx of None \<Rightarrow> None
                         | Some s \<Rightarrow> if s = [] then None else Some s),
      arg_is_offline = True, arg_transaction_hash = hash tx, arg_device_id = deviceId tx\<rparr>"

text \<open>The \<^verbatim>\<open>try\<close> block of the loop body; both of its normal exits count the record
  as synced.\<close>

definition removeSynced :: "'n PendingTransaction \<Rightarrow> ('n, 'r) pass \<Rightarrow> (error + unit) \<times> ('n, 'r) pass" where
  "removeSynced tx =
     and_then (onStore (deleteTransaction (id_tx tx)))
       (\<lambda>u p. (Inr (), p\<lparr>synced := synced p + 1\<rparr>))"

definition tryBlock :: "('n, 'r) ledger \<Rightarrow> 'n PendingTransaction \<Rightarrow> ('n, 'r) pass
    \<Rightarrow> (error + unit) \<times> ('n, 'r) pass" where
  "tryBlock L tx =
     and_then (onStore (updateTransactionStatus (id_tx tx) Syncing False)) (\<lambda>u.
     and_then (duplicateCheck L (hash tx)) (\<lambda>existing.
       case existing of
         Some row \<Rightarrow> removeSynced tx
       | None \<Rightarrow> and_then (processTransaction L (rpcArgs tx)) (\<lambda>data. removeSynced tx)))"

text \<open>The loop body: the \<^verbatim>\<open>try\<close> block and its \<^verbatim>\<open>catch\<close>. The new status is decided on
  the retry count of \<^verbatim>\<open>tx\<close>, the record as fetched at the start of the pass.\<close>

definition syncOne :: "('n, 'r) ledger \<Rightarrow> 'n PendingTransaction \<Rightarrow> ('n, 'r) pass
    \<Rightarrow> (error + unit) \<times> ('n, 'r) pass" where
  "syncOne L tx p =
     (case tryBlock L tx p of
        (Inr u, p') \<Rightarrow> (Inr (), p')
      | (Inl e, p') \<Rightarrow>
          and_then (onStore (updateTransactionStatus (id_tx tx)
                  (if retryCount tx \<ge> 2 then Failed else Pending) True))
            (\<lambda>u p''. (Inr (), p''\<lparr>failed := failed p'' + 1\<rparr>)) p')"

fun syncLoop :: "('n, 'r) ledger \<Rightarrow> 'n PendingTransaction list \<Rightarrow> ('n, 'r) pass
    \<Rightarrow> (error + unit) \<times> ('n, 'r) pass" where
  "syncLoop L [] p = (Inr (), p)"
| "syncLoop L (tx # rest) p = and_then (syncOne L tx) (\<lambda>u. syncLoop L rest) p"

definition plural :: "int \<Rightarrow> string" where
  "plural n = (if n > 1 then ''s'' else '''')"

text \<open>The outer \<^verbatim>\<open>try\<close> block.\<close>

definition drain :: "('n, 'r) ledger \<Rightarrow> ('n, 'r) pass \<Rightarrow> (error + int \<times> int) \<times> ('n, 'r) pass" where
  "drain L =
     and_then (onStore getPendingTransactions) (\<lambda>pending.
       if length pending = 0 then (\<lambda>p. (Inr (0, 0), p\<lparr>isSyncing := False\<rparr>))
       else (\<lambda>p0.
         and_then (syncLoop L pending) (\<lambda>u p.
           let p1 = (if synced p > 0
                     then notify NotifySuccess
                            (show_int (synced p) @ '' transaction'' @ plural (synced p) @ '' synced!'')
                            (synced p) p
                     else p);
               p2 = (if failed p1 > 0
                     then notify NotifyError
                            (show_int (failed p1) @ '' transaction'' @ plural (failed p1)
                               @ '' failed to sync'')
                            (failed p1) p1
                     else p1)
           in (Inr (synced p2, failed p2), p2))
         (notify NotifySyncing
            (''Syncing '' @ show_nat (length pending) @ '' transactions...'')
            (int (length pending)) p0)))"

text \<open>\<open>syncPendingTransactions\<close> (the spec's \<open>runSync\<close>): the guard, the outer \<^verbatim>\<open>try\<close>,
  and the \<^verbatim>\<open>finally\<close> that clears the guard on both exits.\<close>

definition syncPendingTransactions :: "('n, 'r) ledger \<Rightarrow> ('n, 'r) world
    \<Rightarrow> (error + int \<times> int) \<times> ('n, 'r) world" where
  "syncPendingTransactions L w =
     (if isSyncing w then (Inr (0, 0), w)
      else (case drain L (world.extend (w\<lparr>isSyncing := True\<rparr>) (pass.fields 0 0)) of
              (r, p) \<Rightarrow> (r, (world.truncate p)\<lparr>isSyncing := False\<rparr>)))"

section \<open>Effects of the store calls, as lookups\<close>

definition lookup :: "'n db \<Rightarrow> string \<Rightarrow> 'n PendingTransaction option" where
  "lookup d k = store_get id_tx k (pendingTransactions d)"

lemma update_result:
  assumes "updateTransactionStatus k st inc d = (r, d')"
  shows "cachedRecipients d' = cachedRecipients d \<and> deviceIdItem d' = deviceIdItem d
       \<and> (store_ok id_tx (pendingTransactions d) \<longrightarrow> store_ok id_tx (pendingTransactions d'))
       \<and> (faults d = [] \<longrightarrow> r = Inr () \<and> faults d' = [])
       \<and> ((r = Inl StorageUnavailable \<and> lookup d' = lookup d)
          \<or> (r = Inr () \<and> lookup d' =
                (case lookup d k of
                   None \<Rightarrow> lookup d
                 | Some t \<Rightarrow> (lookup d)(k \<mapsto> t\<lparr>status := st,
                       retryCount := (if inc then retryCount t + 1 else retryCount t)\<rparr>))))"
proof (cases "lookup d k")
  case None
  then show ?thesis using assms
    by (auto simp: updateTransactionStatus_def and_then_def db_get_tx_def request_def lookup_def
        split: list.splits if_splits)
next
  case (Some t)
  then have k: "id_tx t = k" using store_get_Some by (fastforce simp: lookup_def)
  show ?thesis using assms Some k
    by (auto simp: updateTransactionStatus_def and_then_def db_get_tx_def db_put_tx_def request_def
        lookup_def store_get_put fun_eq_iff store_put_ok
        split: list.splits if_splits)
qed

lemma delete_result:
  assumes "deleteTransaction k d = (r, d')"
  shows "cachedRecipients d' = cachedRecipients d \<and> deviceIdItem d' = deviceIdItem d
       \<and> (store_ok id_tx (pendingTransactions d) \<longrightarrow> store_ok id_tx (pendingTransactions d'))
       \<and> (faults d = [] \<longrightarrow> r = Inr () \<and> faults d' = [])
       \<and> ((r = Inl StorageUnavailable \<and> lookup d' = lookup d)
          \<or> (r = Inr () \<and> lookup d' = (lookup d)(k := None)))"
  using assms
  by (auto simp: deleteTransaction_def db_delete_tx_def request_def lookup_def
      store_get_delete fun_eq_iff store_delete_ok
      split: list.splits if_splits)

section \<open>One record of a pass\<close>

lemmas engine_defs = tryBlock_def removeSynced_def and_then_def onStore_def duplicateCheck_def
  processTransaction_def

lemma tryBlock_frame:
  assumes "tryBlock L tx p = (r, p')"
  shows "isSyncing p' = isSyncing p \<and> syncCallback p' = syncCallback p
       \<and> notified p' = notified p \<and> failed p' = failed p
       \<and> synced p' = (if r = Inr () then synced p + 1 else synced p)"
  using assms unfolding engine_defs
  by (auto split: prod.splits sum.splits option.splits)

lemma tryBlock_calls:
  assumes "tryBlock L tx p = (r, p')"
  shows "calls p' = calls p
       \<or> (fst (selectByHash L (hash tx) (remote p)) \<noteq> Inr None
           \<and> calls p' = calls p @ [DuplicateCheck (hash tx)
                                      (fst (selectByHash L (hash tx) (remote p)))])
       \<or> (fst (selectByHash L (hash tx) (remote p)) = Inr None
           \<and> (\<exists>reply. calls p' = calls p @ [DuplicateCheck (hash tx) (Inr None),
                                          ProcessTransfer (rpcArgs tx) reply]))"
  using assms unfolding engine_defs
  by (auto split: prod.splits sum.splits option.splits)

lemma tryBlock_steps:
  assumes "tryBlock L tx p = (r, p')"
  shows "\<exists>u1 d1. updateTransactionStatus (id_tx tx) Syncing False (store p) = (u1, d1)
          \<and> ((store p' = d1 \<and> r \<noteq> Inr ())
             \<or> (u1 = Inr () \<and> (\<exists>rd. deleteTransaction (id_tx tx) d1 = (rd, store p')
                    \<and> (rd = Inr () \<longleftrightarrow> r = Inr ()))))"
  using assms unfolding engine_defs
  by (auto split: prod.splits sum.splits option.splits)

lemma tryBlock_store:
  assumes run: "tryBlock L tx p = (r, p')"
  shows "cachedRecipients (store p') = cachedRecipients (store p)
       \<and> deviceIdItem (store p') = deviceIdItem (store p)
       \<and> (store_ok id_tx (pendingTransactions (store p))
            \<longrightarrow> store_ok id_tx (pendingTransactions (store p')))
       \<and> (faults (store p) = [] \<longrightarrow> faults (store p') = [])
       \<and> (\<forall>j. j \<noteq> id_tx tx \<longrightarrow> lookup (store p') j = lookup (store p) j)
       \<and> (r = Inr () \<longrightarrow> lookup (store p') (id_tx tx) = None)
       \<and> (r \<noteq> Inr () \<longrightarrow> (case lookup (store p) (id_tx tx) of
               None \<Rightarrow> lookup (store p') (id_tx tx) = None
             | Some t \<Rightarrow> lookup (store p') (id_tx tx) = Some t
                 \<or> lookup (store p') (id_tx tx) = Some (t\<lparr>status := Syncing\<rparr>)))"
proof -
  let ?k = "id_tx tx"
  obtain u1 d1 where upd: "updateTransactionStatus ?k Syncing False (store p) = (u1, d1)"
    and alt: "(store p' = d1 \<and> r \<noteq> Inr ())
             \<or> (u1 = Inr () \<and> (\<exists>rd. deleteTransaction ?k d1 = (rd, store p')
                    \<and> (rd = Inr () \<longleftrightarrow> r = Inr ())))"
    using tryBlock_steps [OF run] by blast
  note U = update_result [OF upd]
  have U1: "cachedRecipients d1 = cachedRecipients (store p)
      \<and> deviceIdItem d1 = deviceIdItem (store p)" using U by blast
  have U2: "store_ok id_tx (pendingTransactions (store p))
      \<longrightarrow> store_ok id_tx (pendingTransactions d1)" using U by blast
  have U3: "faults (store p) = [] \<longrightarrow> faults d1 = []" using U by blast
  have U4: "\<forall>j. j \<noteq> ?k \<longrightarrow> lookup d1 j = lookup (store p) j"
    using U by (auto split: option.splits)
  have U5: "case lookup (store p) ?k of None \<Rightarrow> lookup d1 ?k = None
      | Some t \<Rightarrow> lookup d1 ?k = Some t \<or> lookup d1 ?k = Some (t\<lparr>status := Syncing\<rparr>)"
    using U by (auto split: option.splits)
  from alt show ?thesis
  proof
    assume a: "store p' = d1 \<and> r \<noteq> Inr ()"
    then show ?thesis using U1 U2 U3 U4 U5 by (simp split: option.splits)
  next
    assume "u1 = Inr () \<and> (\<exists>rd. deleteTransaction ?k d1 = (rd, store p')
                    \<and> (rd = Inr () \<longleftrightarrow> r = Inr ()))"
    then obtain rd where del: "deleteTransaction ?k d1 = (rd, store p')"
      and rd: "rd = Inr () \<longleftrightarrow> r = Inr ()" by blast
    note D = delete_result [OF del]
    have D1: "cachedRecipients (store p') = cachedRecipients d1
      \<and> deviceIdItem (store p') = deviceIdItem d1" using D by blast
    have D2: "store_ok id_tx (pendingTransactions d1)
      \<longrightarrow> store_ok id_tx (pendingTransactions (store p'))" using D by blast
    have D3: "faults d1 = [] \<longrightarrow> faults (store p') = []" using D by blast
    have D4: "\<forall>j. j \<noteq> ?k \<longrightarrow> lookup (store p') j = lookup d1 j"
      using D by auto
    have D5: "r = Inr () \<longrightarrow> lookup (store p') ?k = None" using D rd by auto
    have D6: "r \<noteq> Inr () \<longrightarrow> lookup (store p') ?k = lookup d1 ?k" using D rd by auto
    have c7: "r \<noteq> Inr () \<longrightarrow> (case lookup (store p) ?k of
               None \<Rightarrow> lookup (store p') ?k = None
             | Some t \<Rightarrow> lookup (store p') ?k = Some t
                 \<or> lookup (store p') ?k = Some (t\<lparr>status := Syncing\<rparr>))"
      using D6 U5 by (simp split: option.splits)
    show ?thesis using U1 U2 U3 U4 D1 D2 D3 D4 D5 c7 by simp
  qed
qed

lemma syncOne_steps:
  assumes run: "syncOne L tx p = (r, p')"
  shows "\<exists>rt pt. tryBlock L tx p = (rt, pt)
          \<and> ((rt = Inr () \<and> r = Inr () \<and> p' = pt)
             \<or> (rt \<noteq> Inr ()
                 \<and> updateTransactionStatus (id_tx tx)
                       (if retryCount tx \<ge> 2 then Failed else Pending) True (store pt)
                     = (r, store p')
                 \<and> synced p' = synced pt
                 \<and> failed p' = (if r = Inr () then failed pt + 1 else failed pt)
                 \<and> calls p' = calls pt \<and> remote p' = remote pt
                 \<and> isSyncing p' = isSyncing pt \<and> syncCallback p' = syncCallback pt
                 \<and> notified p' = notified pt))"
proof -
  obtain rt pt where t: "tryBlock L tx p = (rt, pt)" by (cases "tryBlock L tx p")
  show ?thesis
  proof (cases rt)
    case (Inr u)
    then have "r = Inr () \<and> p' = pt" using run t by (simp add: syncOne_def)
    then show ?thesis using t Inr by simp
  next
    case (Inl e)
    let ?st = "if retryCount tx \<ge> 2 then Failed else Pending"
    obtain ru d' where u: "updateTransactionStatus (id_tx tx) ?st True (store pt) = (ru, d')"
      by (cases "updateTransactionStatus (id_tx tx) ?st True (store pt)")
    show ?thesis
    proof (cases ru)
      case ruL: (Inl e')
      then have "r = Inl e' \<and> p' = pt\<lparr>store := d'\<rparr>"
        using run t Inl u by (simp add: syncOne_def and_then_def onStore_def)
      then show ?thesis using t Inl u ruL by simp
    next
      case ruR: (Inr v)
      then have "r = Inr () \<and> p' = pt\<lparr>store := d', failed := failed pt + 1\<rparr>"
        using run t Inl u by (simp add: syncOne_def and_then_def onStore_def)
      then show ?thesis using t Inl u ruR by simp
    qed
  qed
qed

lemma syncOne_frame:
  assumes run: "syncOne L tx p = (r, p')"
  shows "isSyncing p' = isSyncing p \<and> syncCallback p' = syncCallback p
       \<and> notified p' = notified p
       \<and> (r = Inr () \<longrightarrow> (synced p' = synced p + 1 \<and> failed p' = failed p)
                       \<or> (synced p' = synced p \<and> failed p' = failed p + 1))
       \<and> (r \<noteq> Inr () \<longrightarrow> synced p' = synced p \<and> failed p' = failed p)"
proof -
  obtain rt pt where t: "tryBlock L tx p = (rt, pt)" and alt:
    "(rt = Inr () \<and> r = Inr () \<and> p' = pt)
     \<or> (rt \<noteq> Inr ()
         \<and> updateTransactionStatus (id_tx tx)
               (if retryCount tx \<ge> 2 then Failed else Pending) True (store pt) = (r, store p')
         \<and> synced p' = synced pt
         \<and> failed p' = (if r = Inr () then failed pt + 1 else failed pt)
         \<and> calls p' = calls pt \<and> remote p' = remote pt
         \<and> isSyncing p' = isSyncing pt \<and> syncCallback p' = syncCallback pt
         \<and> notified p' = notified pt)"
    using syncOne_steps [OF run] by blast
  show ?thesis using tryBlock_frame [OF t] alt by auto
qed

lemma syncOne_calls:
  assumes run: "syncOne L tx p = (r, p')"
  shows "calls p' = calls p
       \<or> (fst (selectByHash L (hash tx) (remote p)) \<noteq> Inr None
           \<and> calls p' = calls p @ [DuplicateCheck (hash tx)
                                      (fst (selectByHash L (hash tx) (remote p)))])
       \<or> (fst (selectByHash L (hash tx) (remote p)) = Inr None
           \<and> (\<exists>reply. calls p' = calls p @ [DuplicateCheck (hash tx) (Inr None),
                                          ProcessTransfer (rpcArgs tx) reply]))"
proof -
  obtain rt pt where t: "tryBlock L tx p = (rt, pt)" and "p' = pt \<or> calls p' = calls pt"
    using syncOne_steps [OF run] by blast
  then show ?thesis using tryBlock_calls [OF t] by auto
qed

lemma syncOne_store:
  assumes run: "syncOne L tx p = (r, p')"
  shows "cachedRecipients (store p') = cachedRecipients (store p)
       \<and> deviceIdItem (store p') = deviceIdItem (store p)
       \<and> (store_ok id_tx (pendingTransactions (store p))
            \<longrightarrow> store_ok id_tx (pendingTransactions (store p')))
       \<and> (faults (store p) = [] \<longrightarrow> faults (store p') = [] \<and> r = Inr ())
       \<and> (\<forall>j. j \<noteq> id_tx tx \<longrightarrow> lookup (store p') j = lookup (store p) j)
       \<and> (r = Inr () \<longrightarrow>
            (synced p' = synced p + 1 \<and> failed p' = failed p
               \<and> lookup (store p') (id_tx tx) = None)
          \<or> (synced p' = synced p \<and> failed p' = failed p + 1
               \<and> lookup (store p') (id_tx tx) =
                   map_option (\<lambda>t. t\<lparr>status := (if retryCount tx \<ge> 2 then Failed else Pending),
                                        retryCount := retryCount t + 1\<rparr>)
                     (lookup (store p) (id_tx tx))))"
proof -
  obtain rt pt where t: "tryBlock L tx p = (rt, pt)" and alt:
    "(rt = Inr () \<and> r = Inr () \<and> p' = pt)
     \<or> (rt \<noteq> Inr ()
         \<and> updateTransactionStatus (id_tx tx)
               (if retryCount tx \<ge> 2 then Failed else Pending) True (store pt) = (r, store p')
         \<and> synced p' = synced pt
         \<and> failed p' = (if r = Inr () then failed pt + 1 else failed pt)
         \<and> calls p' = calls pt \<and> remote p' = remote pt
         \<and> isSyncing p' = isSyncing pt \<and> syncCallback p' = syncCallback pt
         \<and> notified p' = notified pt)"
    using syncOne_steps [OF run] by blast
  note T = tryBlock_store [OF t] and F = tryBlock_frame [OF t]
  from alt show ?thesis
  proof
    assume "rt = Inr () \<and> r = Inr () \<and> p' = pt"
    then show ?thesis using T F by auto
  next
    assume a: "rt \<noteq> Inr ()
         \<and> updateTransactionStatus (id_tx tx)
               (if retryCount tx \<ge> 2 then Failed else Pending) True (store pt) = (r, store p')
         \<and> synced p' = synced pt
         \<and> failed p' = (if r = Inr () then failed pt + 1 else failed pt)
         \<and> calls p' = calls pt \<and> remote p' = remote pt
         \<and> isSyncing p' = isSyncing pt \<and> syncCallback p' = syncCallback pt
         \<and> notified p' = notified pt"
    then have upd: "updateTransactionStatus (id_tx tx)
               (if retryCount tx \<ge> 2 then Failed else Pending) True (store pt) = (r, store p')"
      by blast
    note U = update_result [OF upd]
    have U1: "cachedRecipients (store p') = cachedRecipients (store pt)
      \<and> deviceIdItem (store p') = deviceIdItem (store pt)" using U by blast
    have U2: "store_ok id_tx (pendingTransactions (store pt))
      \<longrightarrow> store_ok id_tx (pendingTransactions (store p'))" using U by blast
    have U3: "faults (store pt) = [] \<longrightarrow> r = Inr () \<and> faults (store p') = []" using U by blast
    have T1: "cachedRecipients (store pt) = cachedRecipients (store p)
      \<and> deviceIdItem (store pt) = deviceIdItem (store p)" using T by blast
    have T2: "store_ok id_tx (pendingTransactions (store p))
      \<longrightarrow> store_ok id_tx (pendingTransactions (store pt))" using T by blast
    have T3: "faults (store p) = [] \<longrightarrow> faults (store pt) = []" using T by blast
    have T4: "\<forall>j. j \<noteq> id_tx tx \<longrightarrow> lookup (store pt) j = lookup (store p) j" using T by blast
    have T5: "case lookup (store p) (id_tx tx) of
               None \<Rightarrow> lookup (store pt) (id_tx tx) = None
             | Some t \<Rightarrow> lookup (store pt) (id_tx tx) = Some t
                 \<or> lookup (store pt) (id_tx tx) = Some (t\<lparr>status := Syncing\<rparr>)"
      using T a by blast
    have UL: "r = Inr () \<longrightarrow> lookup (store p') =
                (case lookup (store pt) (id_tx tx) of
                   None \<Rightarrow> lookup (store pt)
                 | Some t \<Rightarrow> (lookup (store pt))(id_tx tx \<mapsto>
                     t\<lparr>status := (if retryCount tx \<ge> 2 then Failed else Pending),
                       retryCount := (if True then retryCount t + 1 else retryCount t)\<rparr>))"
      using U by auto
    have UF: "r \<noteq> Inr () \<longrightarrow> lookup (store p') = lookup (store pt)" using U by auto
    have fate: "r = Inr () \<longrightarrow> lookup (store p') (id_tx tx) =
                   map_option (\<lambda>t. t\<lparr>status := (if retryCount tx \<ge> 2 then Failed else Pending),
                                        retryCount := retryCount t + 1\<rparr>)
                     (lookup (store p) (id_tx tx))"
      using UL T5 by (cases "lookup (store p) (id_tx tx)") auto
    have other: "\<forall>j. j \<noteq> id_tx tx \<longrightarrow> lookup (store p') j = lookup (store p) j"
      using UL UF T4 by (cases "r = Inr ()") (auto split: option.splits)
    have cnt: "r = Inr () \<longrightarrow> synced p' = synced p \<and> failed p' = failed p + 1"
      using a F by auto
    show ?thesis using U1 U2 U3 T1 T2 T3 fate other cnt by simp
  qed
qed

section \<open>The loop of a pass\<close>

text \<open>
  The order of remote calls the engine keeps: every call of \<^verbatim>\<open>process_transaction\<close> in
  a sequence of remote calls comes directly after a duplicate check for the same hash
  that returned no row.
\<close>

definition dupCheckFirst :: "'n remote_call list \<Rightarrow> bool" where
  "dupCheckFirst cs =
     (\<forall>i<length cs.
        case cs ! i of
          ProcessTransfer a reply \<Rightarrow>
            0 < i \<and> cs ! (i - 1) = DuplicateCheck (arg_transaction_hash a) (Inr None)
        | DuplicateCheck h reply \<Rightarrow> True)"

lemma dupCheckFirst_append:
  assumes a: "dupCheckFirst xs" and b: "dupCheckFirst ys"
  shows "dupCheckFirst (xs @ ys)"
  unfolding dupCheckFirst_def
proof (intro allI impI)
  fix i assume i: "i < length (xs @ ys)"
  show "case (xs @ ys) ! i of
          ProcessTransfer a reply \<Rightarrow>
            0 < i \<and> (xs @ ys) ! (i - 1) = DuplicateCheck (arg_transaction_hash a) (Inr None)
        | DuplicateCheck h reply \<Rightarrow> True"
  proof (cases "i < length xs")
    case True
    then have "case xs ! i of
          ProcessTransfer a reply \<Rightarrow>
            0 < i \<and> xs ! (i - 1) = DuplicateCheck (arg_transaction_hash a) (Inr None)
        | DuplicateCheck h reply \<Rightarrow> True"
      using a by (simp add: dupCheckFirst_def)
    then show ?thesis using True by (auto simp: nth_append split: remote_call.splits)
  next
    case False
    then have j: "i - length xs < length ys" using i by simp
    then have "case ys ! (i - length xs) of
          ProcessTransfer a reply \<Rightarrow>
            0 < i - length xs
            \<and> ys ! (i - length xs - 1) = DuplicateCheck (arg_transaction_hash a) (Inr None)
        | DuplicateCheck h reply \<Rightarrow> True"
      using b by (simp add: dupCheckFirst_def)
    then show ?thesis using False
      by (auto simp: nth_append split: remote_call.splits)
  qed
qed

lemma rpcArgs_hash [simp]: "arg_transaction_hash (rpcArgs tx) = hash tx"
  by (simp add: rpcArgs_def)

lemma dupCheckFirst_one:
  "dupCheckFirst ([] :: 'n remote_call list)"
  "dupCheckFirst [DuplicateCheck h reply :: 'n remote_call]"
  "dupCheckFirst [DuplicateCheck (hash tx) (Inr None), ProcessTransfer (rpcArgs tx) reply2]"
  by (auto simp: dupCheckFirst_def less_Suc_eq)

lemma syncOne_trace:
  assumes "syncOne L tx p = (r, p')"
  shows "\<exists>tr. calls p' = calls p @ tr \<and> dupCheckFirst tr"
proof -
  from syncOne_calls [OF assms] consider
      "calls p' = calls p @ []"
    | reply where "calls p' = calls p @ [DuplicateCheck (hash tx) reply]"
    | reply where "calls p' = calls p @ [DuplicateCheck (hash tx) (Inr None),
                                          ProcessTransfer (rpcArgs tx) reply]"
    by auto
  then show ?thesis
  proof cases
    case 1
    then show ?thesis using dupCheckFirst_one(1) by blast
  next
    case 2
    then show ?thesis using dupCheckFirst_one(2) by blast
  next
    case 3
    then show ?thesis using dupCheckFirst_one(3) by blast
  qed
qed

lemma syncLoop_trace:
  "syncLoop L txs p = (r, p') \<Longrightarrow> \<exists>tr. calls p' = calls p @ tr \<and> dupCheckFirst tr"
proof (induction txs arbitrary: p)
  case Nil
  then show ?case using dupCheckFirst_one(1) by simp
next
  case (Cons tx rest)
  obtain r1 p1 where one: "syncOne L tx p = (r1, p1)" by (cases "syncOne L tx p")
  obtain tr1 where tr1: "calls p1 = calls p @ tr1" "dupCheckFirst tr1"
    using syncOne_trace [OF one] by blast
  show ?case
  proof (cases r1)
    case (Inl e)
    then have "p' = p1" using Cons.prems one by (simp add: and_then_def)
    then show ?thesis using tr1 by blast
  next
    case (Inr u)
    then have "syncLoop L rest p1 = (r, p')" using Cons.prems one by (simp add: and_then_def)
    then obtain tr2 where "calls p' = calls p1 @ tr2" "dupCheckFirst tr2"
      using Cons.IH by blast
    then show ?thesis using tr1 dupCheckFirst_append by fastforce
  qed
qed


lemma syncLoop_count:
  "syncLoop L txs p = (Inr (), p') \<Longrightarrow>
     synced p' + failed p' = synced p + failed p + int (length txs)
     \<and> synced p \<le> synced p' \<and> failed p \<le> failed p'"
proof (induction txs arbitrary: p)
  case Nil
  then show ?case by simp
next
  case (Cons tx rest)
  obtain r1 p1 where one: "syncOne L tx p = (r1, p1)" by (cases "syncOne L tx p")
  have r1: "r1 = Inr ()" using Cons.prems one by (cases r1) (simp_all add: and_then_def)
  then have rest: "syncLoop L rest p1 = (Inr (), p')"
    using Cons.prems one by (simp add: and_then_def)
  have "(synced p1 = synced p + 1 \<and> failed p1 = failed p)
      \<or> (synced p1 = synced p \<and> failed p1 = failed p + 1)"
    using syncOne_frame [OF one] r1 by blast
  then show ?case using Cons.IH [OF rest] by auto
qed

section \<open>A whole pass\<close>

lemma getPending_result:
  assumes "getPendingTransactions d = (r, d')"
  shows "pendingTransactions d' = pendingTransactions d
       \<and> cachedRecipients d' = cachedRecipients d \<and> deviceIdItem d' = deviceIdItem d
       \<and> (faults d = [] \<longrightarrow> faults d' = [] \<and> r \<noteq> Inl StorageUnavailable)
       \<and> (r = Inl StorageUnavailable
          \<or> r = Inr (filter (\<lambda>t. status t = Pending) (pendingTransactions d)))"
  using assms
  by (auto simp: getPendingTransactions_def db_getAllFromIndex_tx_def request_def
      split: list.splits if_splits)

text \<open>The pass state in which the loop of a pass starts.\<close>

lemma notify_frame:
  "store (notify ph m c p) = store p \<and> isSyncing (notify ph m c p) = isSyncing p
   \<and> remote (notify ph m c p) = remote p \<and> calls (notify ph m c p) = calls p
   \<and> syncCallback (notify ph m c p) = syncCallback p"
  by (simp add: notify_def split: option.splits)

lemma notify_counters:
  fixes p :: "('n, 'r) pass"
  shows "synced (notify ph m c p) = synced p \<and> failed (notify ph m c p) = failed p"
  by (simp add: notify_def split: option.splits)

lemma drain_steps:
  assumes run: "drain L p = (r, p')"
  shows "(r = Inl StorageUnavailable \<and> faults (store p) \<noteq> []
            \<and> pendingTransactions (store p') = pendingTransactions (store p)
            \<and> cachedRecipients (store p') = cachedRecipients (store p)
            \<and> calls p' = calls p \<and> remote p' = remote p \<and> notified p' = notified p)
       \<or> (\<exists>p0 rl pl.
             syncLoop L (filter (\<lambda>t. status t = Pending) (pendingTransactions (store p))) p0
               = (rl, pl)
             \<and> pendingTransactions (store p0) = pendingTransactions (store p)
             \<and> cachedRecipients (store p0) = cachedRecipients (store p)
             \<and> (faults (store p) = [] \<longrightarrow> faults (store p0) = [])
             \<and> synced p0 = synced p \<and> failed p0 = failed p
             \<and> calls p0 = calls p \<and> remote p0 = remote p
             \<and> store p' = store pl \<and> calls p' = calls pl \<and> remote p' = remote pl
             \<and> (case rl of
                  Inl e \<Rightarrow> r = Inl e
                | Inr u \<Rightarrow>
                    if filter (\<lambda>t. status t = Pending) (pendingTransactions (store p)) = []
                    then r = Inr (0, 0) else r = Inr (synced pl, failed pl)))"
proof -
  obtain rg dg where g: "getPendingTransactions (store p) = (rg, dg)"
    by (cases "getPendingTransactions (store p)")
  note G = getPending_result [OF g]
  let ?pending = "filter (\<lambda>t. status t = Pending) (pendingTransactions (store p))"
  show ?thesis
  proof (cases rg)
    case (Inl e)
    then have "r = Inl e \<and> p' = p\<lparr>store := dg\<rparr>"
      using run g by (simp add: drain_def and_then_def onStore_def)
    moreover have "e = StorageUnavailable" "faults (store p) \<noteq> []" using G Inl by auto
    ultimately show ?thesis using G by simp
  next
    case (Inr pending)
    then have pending: "pending = ?pending" using G by simp
    show ?thesis
    proof (cases "?pending = []")
      case True
      then have "r = Inr (0, 0) \<and> p' = p\<lparr>store := dg, isSyncing := False\<rparr>"
        using run g Inr pending by (simp add: drain_def and_then_def onStore_def)
      moreover have "syncLoop L ?pending (p\<lparr>store := dg\<rparr>) = (Inr (), p\<lparr>store := dg\<rparr>)"
        using True by simp
      ultimately show ?thesis using G True
        by (intro disjI2 exI [of _ "p\<lparr>store := dg\<rparr>"] exI [of _ "Inr ()"]) simp
    next
      case False
      let ?p0 = "notify NotifySyncing
            (''Syncing '' @ show_nat (length ?pending) @ '' transactions...'')
            (int (length ?pending)) (p\<lparr>store := dg\<rparr>)"
      obtain rl pl where l: "syncLoop L ?pending ?p0 = (rl, pl)"
        by (cases "syncLoop L ?pending ?p0")
      have p0: "store ?p0 = dg \<and> synced ?p0 = synced p \<and> failed ?p0 = failed p
          \<and> calls ?p0 = calls p \<and> remote ?p0 = remote p"
        by (simp add: notify_frame notify_counters)
      show ?thesis
      proof (cases rl)
        case rlL: (Inl e)
        then have "r = Inl e \<and> p' = pl"
          using run g Inr pending False l by (simp add: drain_def and_then_def onStore_def)
        then show ?thesis using l rlL G p0 False
          by (intro disjI2 exI [of _ ?p0] exI [of _ rl] exI [of _ pl]) simp
      next
        case rlR: (Inr u)
        have res: "r = Inr (synced pl, failed pl) \<and> store p' = store pl
            \<and> calls p' = calls pl \<and> remote p' = remote pl"
          using run g Inr pending False l rlR
          by (auto simp: drain_def and_then_def onStore_def Let_def notify_frame notify_counters)
        then show ?thesis using l rlR G p0 False
          by (intro disjI2 exI [of _ ?p0] exI [of _ rl] exI [of _ pl]) simp
      qed
    qed
  qed
qed

lemma sync_run:
  assumes free: "\<not> isSyncing w" and run: "syncPendingTransactions L w = (r, w')"
  shows "\<exists>p p'. drain L p = (r, p')
          \<and> store p = store w \<and> remote p = remote w \<and> calls p = calls w
          \<and> syncCallback p = syncCallback w \<and> notified p = notified w
          \<and> synced p = 0 \<and> failed p = 0
          \<and> store w' = store p' \<and> remote w' = remote p' \<and> calls w' = calls p'
          \<and> syncCallback w' = syncCallback p' \<and> notified w' = notified p'
          \<and> \<not> isSyncing w'"
proof -
  let ?p = "world.extend (w\<lparr>isSyncing := True\<rparr>) (pass.fields 0 0)"
  obtain rd p' where d: "drain L ?p = (rd, p')" by (cases "drain L ?p")
  have "r = rd \<and> w' = (world.truncate p')\<lparr>isSyncing := False\<rparr>"
    using free run d by (simp add: syncPendingTransactions_def)
  then show ?thesis using d
    by (intro exI [of _ ?p] exI [of _ p']) (simp add: world.defs pass.defs)
qed

section \<open>Example ledgers and worlds\<close>

text \<open>
  Two ledgers for the examples, on a remote state that lists the hashes of the transfers
  the ledger holds. \<open>ledger_bob\<close> finds a duplicate when it holds the hash, and accepts
  a transfer exactly when its receiver is bob; \<open>ledger_down\<close> finds nothing and fails
  every submission.
\<close>

definition ledger_bob :: "(int, string list) ledger" where
  "ledger_bob =
     \<lparr>selectByHash = (\<lambda>h r. (Inr (if h \<in> set r then Some ''row'' else None), r)),
      rpcProcess = (\<lambda>a r.
        if arg_receiver_id a = ''bob''
        then (Inr (Some ''remote-id'', None), arg_transaction_hash a # r)
        else (Inr (None, Some (RemoteError ''invalid receiver'')), r))\<rparr>"

definition ledger_down :: "(int, string list) ledger" where
  "ledger_down =
     \<lparr>selectByHash = (\<lambda>h r. (Inr None, r)),
      rpcProcess = (\<lambda>a r. (Inl (RemoteError ''network''), r))\<rparr>"

definition tx_d :: "int PendingTransaction" where
  "tx_d = \<lparr>senderId = ''alice'', receiverId = ''erin'', receiverPhone = None, amount = 7,
     description = Some ''tea'', timestamp = 4000, status = Pending, retryCount = 2,
     deviceId = ''dev-1'', id_tx = ''tx-4000-0badcafe'', hash = ''0badcafe''\<rparr>"

definition world_ad :: "(int, string list) world" where
  "world_ad = \<lparr>store = \<lparr>pendingTransactions = [tx_a, tx_b, tx_d], cachedRecipients = [],
       deviceIdItem = Some ''dev-1'', faults = []\<rparr>,
     isSyncing = False, syncCallback = Some 0, notified = [], remote = [], calls = []\<rparr>"

lemmas run_defs = syncPendingTransactions_def drain_def syncLoop.simps syncOne_def tryBlock_def
  removeSynced_def and_then_def onStore_def duplicateCheck_def processTransaction_def rpcArgs_def
  notify_def plural_def getPendingTransactions_def updateTransactionStatus_def
  deleteTransaction_def db_getAllFromIndex_tx_def db_get_tx_def db_put_tx_def db_delete_tx_def
  request_def store_get_def store_delete_def world.defs pass.defs

lemma world_ad_run:
  "syncPendingTransactions ledger_bob world_ad =
     (Inr (1, 1),
      \<lparr>store = \<lparr>pendingTransactions = [tx_b, tx_d\<lparr>status := Failed, retryCount := 3\<rparr>],
         cachedRecipients = [], deviceIdItem = Some ''dev-1'', faults = []\<rparr>,
       isSyncing = False, syncCallback = Some 0,
       notified = [(0, NotifySyncing, ''Syncing 2 transactions...'', 2),
                   (0, NotifySuccess, ''1 transaction synced!'', 1),
                   (0, NotifyError, ''1 transaction failed to sync'', 1)],
       remote = [''3e1a0e66''],
       calls = [DuplicateCheck ''3e1a0e66'' (Inr None),
                ProcessTransfer (rpcArgs tx_a) (Inr (Some ''remote-id'', None)),
                DuplicateCheck ''0badcafe'' (Inr None),
                ProcessTransfer (rpcArgs tx_d) (Inr (None, Some (RemoteError ''invalid receiver'')))]\<rparr>)"
  by (simp add: run_defs world_ad_def ledger_bob_def tx_a_def tx_b_def tx_d_def
      show_int_def show_nat.simps digit_char_def)




section \<open>The guard of a pass (claim C3)\<close>










section \<open>The counts of a pass (claim C10)\<close>

text \<open>
  Claim C10. When a pass that started with the guard free returns counts (no storage
  error propagates out of it), \<open>synced + failed\<close> is the number of records with status
  pending at the start of the pass, which are the records the pass fetched, and neither
  count is negative. Each record adds one to exactly one of the counters: a loop body
  \<open>syncOne\<close> that completes raises either \<open>synced\<close> or \<open>failed\<close> by one and leaves
  the other.
\<close>

theorem syncPendingTransactions_count:
  assumes free: "\<not> isSyncing w"
    and run: "syncPendingTransactions L w = (Inr (s, f), w')"
  shows "s + f = int (length (filter (\<lambda>t. status t = Pending) (pendingTransactions (store w))))
       \<and> 0 \<le> s \<and> 0 \<le> f
       \<and> (\<forall>tx p p'. syncOne L tx p = (Inr (), p') \<longrightarrow>
             (synced p' = synced p + 1 \<and> failed p' = failed p)
             \<or> (synced p' = synced p \<and> failed p' = failed p + 1))"
proof -
  let ?pending = "filter (\<lambda>t. status t = Pending) (pendingTransactions (store w))"
  let ?r = "Inr (s, f) :: error + int \<times> int"
  have each: "\<forall>tx p p'. syncOne L tx p = (Inr (), p') \<longrightarrow>
             (synced p' = synced p + 1 \<and> failed p' = failed p)
             \<or> (synced p' = synced p \<and> failed p' = failed p + 1)"
    using syncOne_frame [of L] by blast
  obtain p p' where d: "drain L p = (?r, p')" and p: "store p = store w"
      "synced p = 0" "failed p = 0"
    using sync_run [OF free run] by blast
  have "\<exists>p0 rl pl. syncLoop L ?pending p0 = (rl, pl) \<and> synced p0 = 0 \<and> failed p0 = 0
      \<and> (case rl of Inl e \<Rightarrow> ?r = Inl e
                | Inr u \<Rightarrow> if ?pending = [] then ?r = Inr (0, 0)
                           else ?r = Inr (synced pl, failed pl))"
    using drain_steps [OF d, unfolded p]
    by (elim disjE exE conjE, simp) (intro exI conjI; assumption)
  then obtain p0 rl pl where
      l: "syncLoop L ?pending p0 = (rl, pl)" and c0: "synced p0 = 0" "failed p0 = 0"
      and res: "case rl of Inl e \<Rightarrow> ?r = Inl e
                | Inr u \<Rightarrow> if ?pending = [] then ?r = Inr (0, 0)
                           else ?r = Inr (synced pl, failed pl)"
    by blast
  have rl: "rl = Inr ()" using res by (cases rl) auto
  note C = syncLoop_count [OF l [unfolded rl]]
  have "s + f = int (length ?pending) \<and> 0 \<le> s \<and> 0 \<le> f"
  proof (cases "?pending = []")
    case True
    then show ?thesis using res rl by simp
  next
    case False
    then have "s = synced pl" "f = failed pl" using res rl by simp_all
    then show ?thesis using C c0 by simp
  qed
  then show ?thesis using each by blast
qed

theorem syncPendingTransactions_count_witness:
  "\<not> isSyncing world_ad
   \<and> fst (syncPendingTransactions ledger_bob world_ad) = Inr (1, 1)
   \<and> (1 :: int) + 1
       = int (length (filter (\<lambda>t. status t = Pending) (pendingTransactions (store world_ad))))"
proof -
  have free: "\<not> isSyncing world_ad" by (simp add: world_ad_def)
  show ?thesis
    using syncPendingTransactions_count [OF free world_ad_run] free
    by (simp add: world_ad_run)
qed

section \<open>Duplicate check before submission (claim C1)\<close>

lemma syncOne_duplicate:
  assumes nf: "faults (store p) = []"
    and dup: "fst (selectByHash L (hash tx) (remote p)) = Inr (Some row)"
    and run: "syncOne L tx p = (r, p')"
  shows "r = Inr () \<and> synced p' = synced p + 1 \<and> failed p' = failed p
       \<and> lookup (store p') (id_tx tx) = None
       \<and> calls p' = calls p @ [DuplicateCheck (hash tx) (Inr (Some row))]"
proof -
  obtain u1 d1 where upd: "updateTransactionStatus (id_tx tx) Syncing False (store p) = (u1, d1)"
    by (cases "updateTransactionStatus (id_tx tx) Syncing False (store p)")
  have u1: "u1 = Inr ()" "faults d1 = []" using update_result [OF upd] nf by simp_all
  obtain r1 where sel: "selectByHash L (hash tx) (remote p) = (Inr (Some row), r1)"
    using dup by (cases "selectByHash L (hash tx) (remote p)") simp
  obtain u2 d2 where del: "deleteTransaction (id_tx tx) d1 = (u2, d2)"
    by (cases "deleteTransaction (id_tx tx) d1")
  have u2: "u2 = Inr ()" "lookup d2 (id_tx tx) = None"
    using delete_result [OF del] u1(2) by auto
  have "tryBlock L tx p =
      (Inr (), p\<lparr>store := d2, remote := r1,
                 calls := calls p @ [DuplicateCheck (hash tx) (Inr (Some row))],
                 synced := synced p + 1\<rparr>)"
    using upd u1 sel del u2 by (simp add: engine_defs)
  then have "r = Inr () \<and> p' = p\<lparr>store := d2, remote := r1,
                 calls := calls p @ [DuplicateCheck (hash tx) (Inr (Some row))],
                 synced := synced p + 1\<rparr>"
    using run by (simp add: syncOne_def)
  then show ?thesis using u2 by simp
qed

lemma tryBlock_asks:
  assumes nf: "faults (store p) = []" and run: "tryBlock L tx p = (r, p')"
  shows "\<exists>tr. calls p' = calls p @
            DuplicateCheck (hash tx) (fst (selectByHash L (hash tx) (remote p))) # tr"
proof -
  obtain u1 d1 where upd: "updateTransactionStatus (id_tx tx) Syncing False (store p) = (u1, d1)"
    by (cases "updateTransactionStatus (id_tx tx) Syncing False (store p)")
  have u1: "u1 = Inr ()" using update_result [OF upd] nf by simp
  show ?thesis
    using run upd u1 unfolding engine_defs
    by (auto split: prod.splits sum.splits option.splits)
qed

lemma syncOne_asks:
  assumes nf: "faults (store p) = []" and run: "syncOne L tx p = (r, p')"
  shows "\<exists>tr. calls p' = calls p @
            DuplicateCheck (hash tx) (fst (selectByHash L (hash tx) (remote p))) # tr"
proof -
  obtain rt pt where t: "tryBlock L tx p = (rt, pt)" and "p' = pt \<or> calls p' = calls pt"
    using syncOne_steps [OF run] by blast
  then show ?thesis using tryBlock_asks [OF nf t] by auto
qed

lemma sync_trace:
  assumes free: "\<not> isSyncing w" and run: "syncPendingTransactions L w = (r, w')"
  shows "\<exists>tr. calls w' = calls w @ tr \<and> dupCheckFirst tr"
proof -
  obtain p p' where d: "drain L p = (r, p')" and p: "calls p = calls w" "calls w' = calls p'"
    using sync_run [OF free run] by blast
  from drain_steps [OF d] show ?thesis
  proof (elim disjE exE conjE)
    assume "calls p' = calls p"
    then show ?thesis using p dupCheckFirst_one(1) by simp
  next
    fix p0 rl pl
    assume l: "syncLoop L (filter (\<lambda>t. status t = Pending) (pendingTransactions (store p))) p0
        = (rl, pl)" and c: "calls p0 = calls p" "calls p' = calls pl"
    show ?thesis using syncLoop_trace [OF l] c p by simp
  qed
qed

text \<open>
  Worlds in which the ledger already holds the hash of \<open>tx_a\<close>: \<open>world_dup\<close> without
  storage faults, and \<open>world_a_dup_fault\<close>, whose only record is \<open>tx_a\<close> and whose fourth
  storage request (the removal of \<open>tx_a\<close>, after the fetch and the read and write that
  mark it syncing) is rejected, and \<open>world_a_mark_fault\<close>, in which the second request
  (the read that starts the marking) is rejected. \<open>pass_dup\<close> is the pass state in which
  the loop of a pass over \<open>world_dup\<close> starts.
\<close>

definition world_dup :: "(int, string list) world" where
  "world_dup = world_ad\<lparr>remote := [''3e1a0e66'']\<rparr>"

definition pass_dup :: "(int, string list) pass" where
  "pass_dup = world.extend (world_dup\<lparr>isSyncing := True\<rparr>) (pass.fields 0 0)"

definition world_a_mark_fault :: "(int, string list) world" where
  "world_a_mark_fault =
     \<lparr>store = \<lparr>pendingTransactions = [tx_a], cachedRecipients = [],
        deviceIdItem = Some ''dev-1'', faults = [False, True]\<rparr>,
      isSyncing = False, syncCallback = Some 0, notified = [], remote = [''3e1a0e66''],
      calls = []\<rparr>"

definition world_a_dup_fault :: "(int, string list) world" where
  "world_a_dup_fault =
     \<lparr>store = \<lparr>pendingTransactions = [tx_a], cachedRecipients = [],
        deviceIdItem = Some ''dev-1'', faults = [False, False, False, True]\<rparr>,
      isSyncing = False, syncCallback = Some 0, notified = [], remote = [''3e1a0e66''],
      calls = []\<rparr>"

lemma world_dup_run:
  "syncPendingTransactions ledger_bob world_dup =
     (Inr (1, 1),
      \<lparr>store = \<lparr>pendingTransactions = [tx_b, tx_d\<lparr>status := Failed, retryCount := 3\<rparr>],
         cachedRecipients = [], deviceIdItem = Some ''dev-1'', faults = []\<rparr>,
       isSyncing = False, syncCallback = Some 0,
       notified = [(0, NotifySyncing, ''Syncing 2 transactions...'', 2),
                   (0, NotifySuccess, ''1 transaction synced!'', 1),
                   (0, NotifyError, ''1 transaction failed to sync'', 1)],
       remote = [''3e1a0e66''],
       calls = [DuplicateCheck ''3e1a0e66'' (Inr (Some ''row'')),
                DuplicateCheck ''0badcafe'' (Inr None),
                ProcessTransfer (rpcArgs tx_d) (Inr (None, Some (RemoteError ''invalid receiver'')))]\<rparr>)"
  by (simp add: run_defs world_dup_def world_ad_def ledger_bob_def tx_a_def tx_b_def tx_d_def
      show_int_def show_nat.simps digit_char_def)

text \<open>
  Claim C1, as amended. The remote calls of a pass are in the order \<open>dupCheckFirst\<close>:
  every call of \<^verbatim>\<open>process_transaction\<close> comes directly after a duplicate check for
  the same hash that returned no row. For one record (\<open>syncOne\<close>), the remote calls
  are none (the record could not be marked syncing), or the duplicate check for the
  record's hash alone when it did not return "no row", or that check with the answer
  "no row" followed by the submission of this record. So a record whose duplicate
  check reports a row is never submitted. When no storage request is rejected, the
  duplicate check for the record's hash is made, as the first remote call for the record;
  and when it reports a row, the record is removed from the store, the success counter
  goes up by one, the failure counter stays, and the loop goes on.
\<close>

theorem duplicate_check_first:
  assumes free: "\<not> isSyncing w" and run: "syncPendingTransactions L w = (r, w')"
  shows "(\<exists>tr. calls w' = calls w @ tr \<and> dupCheckFirst tr)
       \<and> (\<forall>tx p rb p'. syncOne L tx p = (rb, p') \<longrightarrow>
            (calls p' = calls p
             \<or> (fst (selectByHash L (hash tx) (remote p)) \<noteq> Inr None
                 \<and> calls p' = calls p @ [DuplicateCheck (hash tx)
                                            (fst (selectByHash L (hash tx) (remote p)))])
             \<or> (fst (selectByHash L (hash tx) (remote p)) = Inr None
                 \<and> (\<exists>reply. calls p' = calls p @ [DuplicateCheck (hash tx) (Inr None),
                                                ProcessTransfer (rpcArgs tx) reply])))
            \<and> (faults (store p) = [] \<longrightarrow>
                 (\<exists>tr. calls p' = calls p @
                    DuplicateCheck (hash tx) (fst (selectByHash L (hash tx) (remote p))) # tr))
            \<and> (\<forall>row. faults (store p) = []
                  \<and> fst (selectByHash L (hash tx) (remote p)) = Inr (Some row) \<longrightarrow>
                  rb = Inr () \<and> synced p' = synced p + 1 \<and> failed p' = failed p
                  \<and> lookup (store p') (id_tx tx) = None
                  \<and> calls p' = calls p @ [DuplicateCheck (hash tx) (Inr (Some row))]))"
proof -
  have body: "(calls p' = calls p
             \<or> (fst (selectByHash L (hash tx) (remote p)) \<noteq> Inr None
                 \<and> calls p' = calls p @ [DuplicateCheck (hash tx)
                                            (fst (selectByHash L (hash tx) (remote p)))])
             \<or> (fst (selectByHash L (hash tx) (remote p)) = Inr None
                 \<and> (\<exists>reply. calls p' = calls p @ [DuplicateCheck (hash tx) (Inr None),
                                                ProcessTransfer (rpcArgs tx) reply])))
            \<and> (faults (store p) = [] \<longrightarrow>
                 (\<exists>tr. calls p' = calls p @
                    DuplicateCheck (hash tx) (fst (selectByHash L (hash tx) (remote p))) # tr))
            \<and> (\<forall>row. faults (store p) = []
                  \<and> fst (selectByHash L (hash tx) (remote p)) = Inr (Some row) \<longrightarrow>
                  rb = Inr () \<and> synced p' = synced p + 1 \<and> failed p' = failed p
                  \<and> lookup (store p') (id_tx tx) = None
                  \<and> calls p' = calls p @ [DuplicateCheck (hash tx) (Inr (Some row))])"
    if one: "syncOne L tx p = (rb, p')" for tx p rb p'
    using syncOne_calls [OF one] syncOne_asks [OF _ one] syncOne_duplicate [OF _ _ one]
    by blast
  show ?thesis using sync_trace [OF free run] body by blast
qed


theorem duplicate_check_first_witness:
  "\<not> isSyncing world_dup
   \<and> calls (snd (syncPendingTransactions ledger_bob world_dup))
       = calls world_dup @
         [DuplicateCheck ''3e1a0e66'' (Inr (Some ''row'')),
          DuplicateCheck ''0badcafe'' (Inr None),
          ProcessTransfer (rpcArgs tx_d) (Inr (None, Some (RemoteError ''invalid receiver'')))]
   \<and> faults (store pass_dup) = []
   \<and> fst (selectByHash ledger_bob (hash tx_a) (remote pass_dup)) = Inr (Some ''row'')
   \<and> fst (syncOne ledger_bob tx_a pass_dup) = Inr ()
   \<and> synced (snd (syncOne ledger_bob tx_a pass_dup)) = synced pass_dup + 1
   \<and> failed (snd (syncOne ledger_bob tx_a pass_dup)) = failed pass_dup
   \<and> lookup (store (snd (syncOne ledger_bob tx_a pass_dup))) (id_tx tx_a) = None
   \<and> calls (snd (syncOne ledger_bob tx_a pass_dup))
       = calls pass_dup @ [DuplicateCheck (hash tx_a) (Inr (Some ''row''))]"
proof -
  have free: "\<not> isSyncing world_dup" by (simp add: world_dup_def world_ad_def)
  note T = duplicate_check_first [OF free world_dup_run]
  have nf: "faults (store pass_dup) = []"
    by (simp add: pass_dup_def world_dup_def world_ad_def world.defs pass.defs)
  have dup: "fst (selectByHash ledger_bob (hash tx_a) (remote pass_dup)) = Inr (Some ''row'')"
    by (simp add: pass_dup_def world_dup_def world_ad_def world.defs pass.defs ledger_bob_def
        tx_a_def)
  have one: "syncOne ledger_bob tx_a pass_dup
      = (fst (syncOne ledger_bob tx_a pass_dup), snd (syncOne ledger_bob tx_a pass_dup))"
    by simp
  have body: "fst (syncOne ledger_bob tx_a pass_dup) = Inr ()
     \<and> synced (snd (syncOne ledger_bob tx_a pass_dup)) = synced pass_dup + 1
     \<and> failed (snd (syncOne ledger_bob tx_a pass_dup)) = failed pass_dup
     \<and> lookup (store (snd (syncOne ledger_bob tx_a pass_dup))) (id_tx tx_a) = None
     \<and> calls (snd (syncOne ledger_bob tx_a pass_dup))
         = calls pass_dup @ [DuplicateCheck (hash tx_a) (Inr (Some ''row''))]"
    using T one nf dup by blast
  have "calls world_dup = []" by (simp add: world_dup_def world_ad_def)
  then have c: "calls (snd (syncPendingTransactions ledger_bob world_dup))
       = calls world_dup @
         [DuplicateCheck ''3e1a0e66'' (Inr (Some ''row'')),
          DuplicateCheck ''0badcafe'' (Inr None),
          ProcessTransfer (rpcArgs tx_d) (Inr (None, Some (RemoteError ''invalid receiver'')))]"
    by (simp add: world_dup_run)
  show ?thesis using free nf dup body c by simp
qed

text \<open>
  Claim C1 as stated fails where the store rejects a request. When the removal is
  rejected, the duplicate check reports the hash of \<open>tx_a\<close>, yet the pass counts the
  record as failed, keeps it in the store and raises its retry count. When the marking
  is rejected, the record is handled (counted as failed, retry count raised) without any
  remote call, so without a duplicate check.
\<close>

theorem duplicate_removal_rejected:
  "fst (selectByHash ledger_bob (hash tx_a) (remote world_a_dup_fault)) = Inr (Some ''row'')
   \<and> syncPendingTransactions ledger_bob world_a_dup_fault =
     (Inr (0, 1),
      \<lparr>store = \<lparr>pendingTransactions = [tx_a\<lparr>retryCount := 1\<rparr>], cachedRecipients = [],
         deviceIdItem = Some ''dev-1'', faults = []\<rparr>,
       isSyncing = False, syncCallback = Some 0,
       notified = [(0, NotifySyncing, ''Syncing 1 transactions...'', 1),
                   (0, NotifyError, ''1 transaction failed to sync'', 1)],
       remote = [''3e1a0e66''],
       calls = [DuplicateCheck ''3e1a0e66'' (Inr (Some ''row''))]\<rparr>)
   \<and> syncPendingTransactions ledger_bob world_a_mark_fault =
     (Inr (0, 1),
      \<lparr>store = \<lparr>pendingTransactions = [tx_a\<lparr>retryCount := 1\<rparr>], cachedRecipients = [],
         deviceIdItem = Some ''dev-1'', faults = []\<rparr>,
       isSyncing = False, syncCallback = Some 0,
       notified = [(0, NotifySyncing, ''Syncing 1 transactions...'', 1),
                   (0, NotifyError, ''1 transaction failed to sync'', 1)],
       remote = [''3e1a0e66''],
       calls = []\<rparr>)"
  by (simp add: run_defs world_a_dup_fault_def world_a_mark_fault_def ledger_bob_def tx_a_def
      show_int_def show_nat.simps digit_char_def)

section \<open>The retry threshold (claim C2)\<close>

text \<open>
  A remote call settles a hash when it gives the engine its reason to remove a record
  with that hash: a duplicate check for the hash that found a row, or a submission with
  the hash that the ledger accepted (it returned without an error).
\<close>

fun settles :: "string \<Rightarrow> 'n remote_call \<Rightarrow> bool" where
  "settles h (DuplicateCheck h' reply) =
     (h' = h \<and> (case reply of Inr (Some row) \<Rightarrow> True | _ \<Rightarrow> False))"
| "settles h (ProcessTransfer a reply) =
     (arg_transaction_hash a = h \<and> (case reply of Inr (data, None) \<Rightarrow> True | _ \<Rightarrow> False))"

lemma syncLoop_store:
  "syncLoop L txs p = (r, p') \<Longrightarrow>
     (store_ok id_tx (pendingTransactions (store p))
        \<longrightarrow> store_ok id_tx (pendingTransactions (store p')))
     \<and> (faults (store p) = [] \<longrightarrow> faults (store p') = [] \<and> r = Inr ())
     \<and> (\<forall>k. k \<notin> id_tx ` set txs \<longrightarrow> lookup (store p') k = lookup (store p) k)"
proof (induction txs arbitrary: p)
  case Nil
  then show ?case by simp
next
  case (Cons tx rest)
  obtain r1 p1 where one: "syncOne L tx p = (r1, p1)" by (cases "syncOne L tx p")
  note S = syncOne_store [OF one]
  have S1: "store_ok id_tx (pendingTransactions (store p))
        \<longrightarrow> store_ok id_tx (pendingTransactions (store p1))" using S by blast
  have S2: "faults (store p) = [] \<longrightarrow> faults (store p1) = [] \<and> r1 = Inr ()" using S by blast
  have S3: "\<forall>j. j \<noteq> id_tx tx \<longrightarrow> lookup (store p1) j = lookup (store p) j" using S by blast
  show ?case
  proof (cases r1)
    case (Inl e)
    then have "r = Inl e \<and> p' = p1" using Cons.prems one by (simp add: and_then_def)
    then show ?thesis using S1 S2 S3 Inl by auto
  next
    case (Inr u)
    then have "syncLoop L rest p1 = (r, p')" using Cons.prems one by (simp add: and_then_def)
    from Cons.IH [OF this] show ?thesis using S1 S2 S3 by auto
  qed
qed


lemma lookup_cong: "pendingTransactions d = pendingTransactions d' \<Longrightarrow> lookup d = lookup d'"
  by (simp add: lookup_def fun_eq_iff)

lemma pending_distinct:
  assumes ok: "store_ok id_tx xs"
  shows "distinct (map id_tx (filter P xs))"
proof -
  have "distinct (map id_tx xs)" using ok by (simp add: store_ok_def strict_sorted_iff)
  then show ?thesis by (rule distinct_map_filter)
qed

lemma sync_effect:
  assumes ok: "store_ok id_tx (pendingTransactions (store w))"
    and free: "\<not> isSyncing w" and run: "syncPendingTransactions L w = (r, w')"
  shows "store_ok id_tx (pendingTransactions (store w'))"
    and "\<not> isSyncing w'"
    and "faults (store w) = [] \<Longrightarrow> faults (store w') = [] \<and> (\<exists>c. r = Inr c)"
    and "lookup (store w) k = Some t \<Longrightarrow> status t \<noteq> Pending \<Longrightarrow>
         lookup (store w') k = Some t"
proof -
  let ?xs = "pendingTransactions (store w)"
  let ?pending = "filter (\<lambda>t. status t = Pending) ?xs"
  obtain p p' where d: "drain L p = (r, p')" and p: "store p = store w"
    and w': "store w' = store p'" and g: "\<not> isSyncing w'"
    using sync_run [OF free run] by blast
  show "\<not> isSyncing w'" by (rule g)
  from drain_steps [OF d, unfolded p] consider
      (fault) "r = Inl StorageUnavailable" "faults (store w) \<noteq> []"
        "pendingTransactions (store p') = ?xs"
    | (loop) p0 rl pl where "syncLoop L ?pending p0 = (rl, pl)"
        "pendingTransactions (store p0) = ?xs"
        "faults (store w) = [] \<longrightarrow> faults (store p0) = []"
        "store p' = store pl"
        "case rl of Inl e \<Rightarrow> r = Inl e | Inr u \<Rightarrow> (\<exists>c. r = Inr c)"
    by (elim disjE exE conjE) (auto split: sum.splits if_splits)
  note cases = this
  show "store_ok id_tx (pendingTransactions (store w'))"
  proof (cases rule: cases)
    case fault
    then show ?thesis using ok w' by simp
  next
    case (loop p0 rl pl)
    then show ?thesis using syncLoop_store [OF loop(1)] ok w' by simp
  qed
  show "faults (store w') = [] \<and> (\<exists>c. r = Inr c)" if nf: "faults (store w) = []"
  proof (cases rule: cases)
    case fault
    then show ?thesis using nf by simp
  next
    case (loop p0 rl pl)
    then have "faults (store pl) = [] \<and> rl = Inr ()"
      using syncLoop_store [OF loop(1)] nf by simp
    then show ?thesis using loop(4,5) w' by simp
  qed
  show "lookup (store w') k = Some t"
    if got: "lookup (store w) k = Some t" and st: "status t \<noteq> Pending"
  proof (cases rule: cases)
    case fault
    then show ?thesis using got w' lookup_cong [of "store p'" "store w"] by simp
  next
    case (loop p0 rl pl)
    have mem: "t \<in> set ?xs" "id_tx t = k"
      using got store_get_Some [of id_tx k ?xs t] by (simp_all add: lookup_def)
    have "k \<notin> id_tx ` set ?pending"
    proof
      assume "k \<in> id_tx ` set ?pending"
      then obtain x where x: "x \<in> set ?xs" "status x = Pending" "id_tx x = k" by auto
      then have "x = t" using store_ok_inj [OF ok x(1) mem(1)] mem(2) by simp
      then show False using x(2) st by simp
    qed
    then have "lookup (store pl) k = lookup (store p0) k"
      using syncLoop_store [OF loop(1)] by blast
    then show ?thesis
      using got w' loop(4) lookup_cong [OF loop(2)] by simp
  qed
qed

lemma tryBlock_submission_failed:
  assumes run: "tryBlock L tx p = (rt, pt)"
    and tr: "calls pt = calls p @ [DuplicateCheck h (Inr None), ProcessTransfer a reply]"
    and bad: "\<forall>data. reply \<noteq> Inr (data, None)"
  shows "rt \<noteq> Inr ()"
  using run tr bad unfolding engine_defs
  by (auto split: prod.splits sum.splits option.splits)

lemma syncOne_submission_failed:
  assumes run: "syncOne L tx p = (Inr (), p')"
    and tr: "calls p' = calls p @ [DuplicateCheck h (Inr None), ProcessTransfer a reply]"
    and bad: "\<forall>data. reply \<noteq> Inr (data, None)"
  shows "synced p' = synced p \<and> failed p' = failed p + 1
       \<and> lookup (store p') (id_tx tx) =
           map_option (\<lambda>t. t\<lparr>status := (if retryCount tx \<ge> 2 then Failed else Pending),
                                retryCount := retryCount t + 1\<rparr>)
             (lookup (store p) (id_tx tx))"
proof -
  obtain rt pt where t: "tryBlock L tx p = (rt, pt)" and alt:
    "(rt = Inr () \<and> p' = pt) \<or> (rt \<noteq> Inr () \<and> synced p' = synced pt \<and> calls p' = calls pt)"
    using syncOne_steps [OF run] by blast
  have c: "calls pt = calls p @ [DuplicateCheck h (Inr None), ProcessTransfer a reply]"
    using alt tr by auto
  have "rt \<noteq> Inr ()" by (rule tryBlock_submission_failed [OF t c bad])
  then have "synced p' = synced p" using alt tryBlock_frame [OF t] by simp
  then show ?thesis using syncOne_store [OF run] by simp
qed

text \<open>
  The fate of a record in a loop body, a loop and a pass that complete: either it is
  removed, and then a remote call of the run settled its hash, or its attempt failed and
  it is kept, with its retry count raised by one and its status set on the retry count it
  was fetched with.
\<close>

lemma tryBlock_settled:
  assumes run: "tryBlock L tx p = (Inr (), pt)"
  shows "\<exists>tr. calls pt = calls p @ tr \<and> (\<exists>c\<in>set tr. settles (hash tx) c)"
  using run unfolding engine_defs
  by (auto split: prod.splits sum.splits option.splits)

lemma syncOne_fate:
  assumes run: "syncOne L tx p = (Inr (), p')"
  shows "\<exists>tr. calls p' = calls p @ tr
          \<and> ((synced p' = synced p + 1 \<and> failed p' = failed p
                \<and> lookup (store p') (id_tx tx) = None
                \<and> (\<exists>c\<in>set tr. settles (hash tx) c))
             \<or> (synced p' = synced p \<and> failed p' = failed p + 1
                \<and> lookup (store p') (id_tx tx) =
                    map_option (\<lambda>t. t\<lparr>status := (if retryCount tx \<ge> 2 then Failed else Pending),
                                         retryCount := retryCount t + 1\<rparr>)
                      (lookup (store p) (id_tx tx))))"
proof -
  obtain rt pt where t: "tryBlock L tx p = (rt, pt)" and alt:
    "(rt = Inr () \<and> p' = pt) \<or> (rt \<noteq> Inr () \<and> synced p' = synced pt)"
    using syncOne_steps [OF run] by blast
  note S = syncOne_store [OF run]
  have fate: "(synced p' = synced p + 1 \<and> failed p' = failed p
               \<and> lookup (store p') (id_tx tx) = None)
          \<or> (synced p' = synced p \<and> failed p' = failed p + 1
               \<and> lookup (store p') (id_tx tx) =
                   map_option (\<lambda>t. t\<lparr>status := (if retryCount tx \<ge> 2 then Failed else Pending),
                                        retryCount := retryCount t + 1\<rparr>)
                     (lookup (store p) (id_tx tx)))"
    using S by blast
  from alt show ?thesis
  proof
    assume a: "rt = Inr () \<and> p' = pt"
    then obtain tr where tr: "calls p' = calls p @ tr" "\<exists>c\<in>set tr. settles (hash tx) c"
      using tryBlock_settled [of L tx p pt] t by auto
    have "synced p' = synced p + 1" using a tryBlock_frame [OF t] by simp
    then show ?thesis using fate tr by auto
  next
    assume a: "rt \<noteq> Inr () \<and> synced p' = synced pt"
    then have "synced p' = synced p" using tryBlock_frame [OF t] by simp
    moreover obtain tr where "calls p' = calls p @ tr" using syncOne_trace [OF run] by blast
    ultimately show ?thesis using fate by auto
  qed
qed

lemma syncLoop_fate:
  "distinct (map id_tx txs) \<Longrightarrow> t \<in> set txs \<Longrightarrow> syncLoop L txs p = (Inr (), p') \<Longrightarrow>
   \<exists>tr. calls p' = calls p @ tr
     \<and> ((lookup (store p') (id_tx t) = None \<and> (\<exists>c\<in>set tr. settles (hash t) c))
        \<or> lookup (store p') (id_tx t) =
             map_option (\<lambda>x. x\<lparr>status := (if retryCount t \<ge> 2 then Failed else Pending),
                                  retryCount := retryCount x + 1\<rparr>)
               (lookup (store p) (id_tx t)))"
proof (induction txs arbitrary: p)
  case Nil
  then show ?case by simp
next
  case (Cons tx rest)
  obtain r1 p1 where one: "syncOne L tx p = (r1, p1)" by (cases "syncOne L tx p")
  have r1: "r1 = Inr ()" using Cons.prems(3) one by (cases r1) (simp_all add: and_then_def)
  then have rest: "syncLoop L rest p1 = (Inr (), p')"
    using Cons.prems(3) one by (simp add: and_then_def)
  show ?case
  proof (cases "tx = t")
    case True
    then have "id_tx t \<notin> id_tx ` set rest" using Cons.prems(1) by auto
    then have same: "lookup (store p') (id_tx t) = lookup (store p1) (id_tx t)"
      using syncLoop_store [OF rest] by blast
    obtain tr2 where tr2: "calls p' = calls p1 @ tr2" using syncLoop_trace [OF rest] by blast
    obtain tr1 where tr1: "calls p1 = calls p @ tr1"
      and f1: "(lookup (store p1) (id_tx t) = None \<and> (\<exists>c\<in>set tr1. settles (hash t) c))
             \<or> lookup (store p1) (id_tx t) =
                 map_option (\<lambda>x. x\<lparr>status := (if retryCount t \<ge> 2 then Failed else Pending),
                                      retryCount := retryCount x + 1\<rparr>)
                   (lookup (store p) (id_tx t))"
      using syncOne_fate [OF one [unfolded r1]] True by blast
    have "calls p' = calls p @ (tr1 @ tr2)" using tr1 tr2 by simp
    moreover have "(lookup (store p') (id_tx t) = None
                      \<and> (\<exists>c\<in>set (tr1 @ tr2). settles (hash t) c))
             \<or> lookup (store p') (id_tx t) =
                 map_option (\<lambda>x. x\<lparr>status := (if retryCount t \<ge> 2 then Failed else Pending),
                                      retryCount := retryCount x + 1\<rparr>)
                   (lookup (store p) (id_tx t))"
      using f1 same by auto
    ultimately show ?thesis by blast
  next
    case False
    then have mem: "t \<in> set rest" using Cons.prems(2) by simp
    have "id_tx tx \<notin> id_tx ` set rest" using Cons.prems(1) by simp
    then have "id_tx t \<noteq> id_tx tx" using mem by (metis imageI)
    then have same: "lookup (store p1) (id_tx t) = lookup (store p) (id_tx t)"
      using syncOne_store [OF one] by blast
    have d: "distinct (map id_tx rest)" using Cons.prems(1) by simp
    obtain tr1 where tr1: "calls p1 = calls p @ tr1" using syncOne_trace [OF one] by blast
    obtain tr2 where tr2: "calls p' = calls p1 @ tr2"
      and f2: "(lookup (store p') (id_tx t) = None \<and> (\<exists>c\<in>set tr2. settles (hash t) c))
             \<or> lookup (store p') (id_tx t) =
                 map_option (\<lambda>x. x\<lparr>status := (if retryCount t \<ge> 2 then Failed else Pending),
                                      retryCount := retryCount x + 1\<rparr>)
                   (lookup (store p1) (id_tx t))"
      using Cons.IH [OF d mem rest] by blast
    have "calls p' = calls p @ (tr1 @ tr2)" using tr1 tr2 by simp
    moreover have "(lookup (store p') (id_tx t) = None
                      \<and> (\<exists>c\<in>set (tr1 @ tr2). settles (hash t) c))
             \<or> lookup (store p') (id_tx t) =
                 map_option (\<lambda>x. x\<lparr>status := (if retryCount t \<ge> 2 then Failed else Pending),
                                      retryCount := retryCount x + 1\<rparr>)
                   (lookup (store p) (id_tx t))"
      using f2 same by auto
    ultimately show ?thesis by blast
  qed
qed

lemma sync_fate:
  assumes ok: "store_ok id_tx (pendingTransactions (store w))"
    and free: "\<not> isSyncing w" and run: "syncPendingTransactions L w = (Inr c, w')"
    and got: "lookup (store w) k = Some t" and st: "status t = Pending"
  shows "\<exists>tr. calls w' = calls w @ tr
     \<and> ((lookup (store w') k = None \<and> (\<exists>c\<in>set tr. settles (hash t) c))
        \<or> lookup (store w') k =
             Some (t\<lparr>status := (if retryCount t \<ge> 2 then Failed else Pending),
                     retryCount := retryCount t + 1\<rparr>))"
proof -
  let ?xs = "pendingTransactions (store w)"
  let ?pending = "filter (\<lambda>t. status t = Pending) ?xs"
  let ?r = "Inr c :: error + int \<times> int"
  obtain p p' where d: "drain L p = (?r, p')" and p: "store p = store w" "calls p = calls w"
    and w': "store w' = store p'" "calls w' = calls p'"
    using sync_run [OF free run] by blast
  have "\<exists>p0 pl. syncLoop L ?pending p0 = (Inr (), pl)
        \<and> pendingTransactions (store p0) = ?xs \<and> calls p0 = calls w
        \<and> store p' = store pl \<and> calls p' = calls pl"
    using drain_steps [OF d, unfolded p]
  proof (elim disjE exE conjE)
    assume "?r = Inl StorageUnavailable"
    then show ?thesis by simp
  next
    fix p0 rl pl
    assume l: "syncLoop L ?pending p0 = (rl, pl)"
      and f: "pendingTransactions (store p0) = ?xs" "calls p0 = calls w"
        "store p' = store pl" "calls p' = calls pl"
      and res: "case rl of Inl e \<Rightarrow> ?r = Inl e
                | Inr u \<Rightarrow> if ?pending = [] then ?r = Inr (0, 0)
                           else ?r = Inr (synced pl, failed pl)"
    have "rl = Inr ()" using res by (cases rl) auto
    then show ?thesis using l f by blast
  qed
  then obtain p0 pl where l: "syncLoop L ?pending p0 = (Inr (), pl)"
      and p0: "pendingTransactions (store p0) = ?xs" "calls p0 = calls w"
      and pl: "store p' = store pl" "calls p' = calls pl"
    by blast
  have mem: "t \<in> set ?pending" "id_tx t = k"
    using got st store_get_Some [of id_tx k ?xs t] by (simp_all add: lookup_def)
  have l0: "lookup (store p0) k = Some t" using got lookup_cong [OF p0(1)] by simp
  show ?thesis
    using syncLoop_fate [OF pending_distinct [OF ok] mem(1) l]
      mem(2) l0 w' pl p0(2)
    by simp
qed

lemma tryBlock_remote_failure:
  assumes nf: "faults (store p) = []" and run: "tryBlock L tx p = (rt, pt)"
    and bad: "rt \<noteq> Inr ()"
  shows "(\<exists>e. calls pt = calls p @ [DuplicateCheck (hash tx) (Inl e)])
       \<or> (\<exists>reply. calls pt = calls p @ [DuplicateCheck (hash tx) (Inr None),
                                        ProcessTransfer (rpcArgs tx) reply]
             \<and> (\<forall>data. reply \<noteq> Inr (data, None)))"
proof -
  obtain u1 d1 where upd: "updateTransactionStatus (id_tx tx) Syncing False (store p) = (u1, d1)"
    by (cases "updateTransactionStatus (id_tx tx) Syncing False (store p)")
  have u1: "u1 = Inr ()" "faults d1 = []" using update_result [OF upd] nf by simp_all
  obtain u2 d2 where del: "deleteTransaction (id_tx tx) d1 = (u2, d2)"
    by (cases "deleteTransaction (id_tx tx) d1")
  have u2: "u2 = Inr ()" using delete_result [OF del] u1(2) by simp
  show ?thesis
    using run bad upd u1 del u2 unfolding engine_defs
    by (auto split: prod.splits sum.splits option.splits)
qed

lemma syncOne_remote_failure:
  assumes nf: "faults (store p) = []" and run: "syncOne L tx p = (r, p')"
    and cnt: "failed p' = failed p + 1"
  shows "(\<exists>e. calls p' = calls p @ [DuplicateCheck (hash tx) (Inl e)])
       \<or> (\<exists>reply. calls p' = calls p @ [DuplicateCheck (hash tx) (Inr None),
                                        ProcessTransfer (rpcArgs tx) reply]
             \<and> (\<forall>data. reply \<noteq> Inr (data, None)))"
proof -
  obtain rt pt where t: "tryBlock L tx p = (rt, pt)" and alt:
    "(rt = Inr () \<and> p' = pt) \<or> (rt \<noteq> Inr () \<and> calls p' = calls pt)"
    using syncOne_steps [OF run] by blast
  have "rt \<noteq> Inr ()" using alt cnt tryBlock_frame [OF t] by auto
  then show ?thesis using tryBlock_remote_failure [OF nf t] alt by simp
qed


text \<open>
  Claim C2, as amended. An attempt on a record fails when the \<^verbatim>\<open>try\<close> block of the loop
  body throws, for whatever cause: the duplicate check throws, the submission throws or
  returns an error, or the store rejects a request of the block. The retry count counts
  failed attempts, not failed remote calls.

  For the loop body \<open>syncOne\<close>: when the submission of a record fails and the body
  completes, the record is counted as failed, its retry count is raised by one, and its
  status is set to failed when the retry count it was fetched with was 2 or more, and
  back to pending otherwise. Every body that completes either removes the record and
  counts it as synced, after a remote call that settled its hash, or counts it as failed
  and updates it by this rule. When no storage request is rejected, a record is counted
  as failed only after a remote call for it failed: its duplicate check threw, or its
  submission, made after a duplicate check that found nothing, threw or returned an
  error.

  For a whole pass that runs to completion and finds the record \<open>x\<close> pending: after
  the pass the record is gone, and a remote call of the pass settled its hash, or it is
  there with its retry count raised by one and its status set by the same rule; the
  latter is the case whenever no remote call of the pass settles its hash. This holds
  for every ledger, whatever its replies depend on.

  So a record that is queued with retry count 0 and whose attempt fails in three
  successive passes is pending with retry count 1 after the first, pending with retry
  count 2 after the second, and so among the records the third pass fetches, and failed
  with retry count 3 after the third. It is then not among the records with status
  pending, which are what \<open>getPendingTransactions\<close> returns, and no later pass
  touches it: a pass leaves every record that it does not find pending as it is.
\<close>

theorem retry_threshold:
  assumes ok: "store_ok id_tx (pendingTransactions (store w0))" and free: "\<not> isSyncing w0"
    and got: "lookup (store w0) k = Some t" and pend: "status t = Pending"
    and fresh: "retryCount t = 0"
    and run1: "syncPendingTransactions L w0 = (Inr c1, w1)"
    and tr1: "calls w1 = calls w0 @ tr1" and un1: "\<forall>c\<in>set tr1. \<not> settles (hash t) c"
    and run2: "syncPendingTransactions L w1 = (Inr c2, w2)"
    and tr2: "calls w2 = calls w1 @ tr2" and un2: "\<forall>c\<in>set tr2. \<not> settles (hash t) c"
    and run3: "syncPendingTransactions L w2 = (Inr c3, w3)"
    and tr3: "calls w3 = calls w2 @ tr3" and un3: "\<forall>c\<in>set tr3. \<not> settles (hash t) c"
    and run4: "syncPendingTransactions L w3 = (r4, w4)"
  shows "(\<forall>tx p p' h a reply.
            syncOne L tx p = (Inr (), p')
            \<and> calls p' = calls p @ [DuplicateCheck h (Inr None), ProcessTransfer a reply]
            \<and> (\<forall>data. reply \<noteq> Inr (data, None)) \<longrightarrow>
            synced p' = synced p \<and> failed p' = failed p + 1
            \<and> lookup (store p') (id_tx tx) =
                map_option (\<lambda>t. t\<lparr>status := (if retryCount tx \<ge> 2 then Failed else Pending),
                                     retryCount := retryCount t + 1\<rparr>)
                  (lookup (store p) (id_tx tx)))
       \<and> (\<forall>tx p p'. syncOne L tx p = (Inr (), p') \<longrightarrow>
            (\<exists>tr. calls p' = calls p @ tr
              \<and> ((synced p' = synced p + 1 \<and> failed p' = failed p
                    \<and> lookup (store p') (id_tx tx) = None
                    \<and> (\<exists>c\<in>set tr. settles (hash tx) c))
                 \<or> (synced p' = synced p \<and> failed p' = failed p + 1
                    \<and> lookup (store p') (id_tx tx) =
                        map_option (\<lambda>t. t\<lparr>status := (if retryCount tx \<ge> 2 then Failed else Pending),
                                             retryCount := retryCount t + 1\<rparr>)
                          (lookup (store p) (id_tx tx))))))
       \<and> (\<forall>tx p r p'. faults (store p) = [] \<and> syncOne L tx p = (r, p')
            \<and> failed p' = failed p + 1 \<longrightarrow>
            (\<exists>e. calls p' = calls p @ [DuplicateCheck (hash tx) (Inl e)])
            \<or> (\<exists>reply. calls p' = calls p @ [DuplicateCheck (hash tx) (Inr None),
                                             ProcessTransfer (rpcArgs tx) reply]
                  \<and> (\<forall>data. reply \<noteq> Inr (data, None))))
       \<and> (\<forall>w c w' x.
            store_ok id_tx (pendingTransactions (store w)) \<and> \<not> isSyncing w
            \<and> lookup (store w) k = Some x \<and> status x = Pending
            \<and> syncPendingTransactions L w = (Inr c, w') \<longrightarrow>
            (\<exists>tr. calls w' = calls w @ tr
              \<and> ((lookup (store w') k = None \<and> (\<exists>c\<in>set tr. settles (hash x) c))
                 \<or> lookup (store w') k =
                     Some (x\<lparr>status := (if retryCount x \<ge> 2 then Failed else Pending),
                             retryCount := retryCount x + 1\<rparr>))))
       \<and> (\<forall>w c w' x tr.
            store_ok id_tx (pendingTransactions (store w)) \<and> \<not> isSyncing w
            \<and> lookup (store w) k = Some x \<and> status x = Pending
            \<and> syncPendingTransactions L w = (Inr c, w')
            \<and> calls w' = calls w @ tr \<and> (\<forall>c\<in>set tr. \<not> settles (hash x) c) \<longrightarrow>
            lookup (store w') k =
              Some (x\<lparr>status := (if retryCount x \<ge> 2 then Failed else Pending),
                      retryCount := retryCount x + 1\<rparr>))
       \<and> (\<forall>w r w' x.
            store_ok id_tx (pendingTransactions (store w)) \<and> \<not> isSyncing w
            \<and> lookup (store w) k = Some x \<and> status x \<noteq> Pending
            \<and> syncPendingTransactions L w = (r, w') \<longrightarrow>
            lookup (store w') k = Some x
            \<and> store_ok id_tx (pendingTransactions (store w')) \<and> \<not> isSyncing w')
       \<and> lookup (store w1) k = Some (t\<lparr>status := Pending, retryCount := 1\<rparr>)
       \<and> lookup (store w2) k = Some (t\<lparr>status := Pending, retryCount := 2\<rparr>)
       \<and> t\<lparr>status := Pending, retryCount := 2\<rparr>
            \<in> set (filter (\<lambda>x. status x = Pending) (pendingTransactions (store w2)))
       \<and> lookup (store w3) k = Some (t\<lparr>status := Failed, retryCount := 3\<rparr>)
       \<and> (\<forall>x\<in>set (filter (\<lambda>x. status x = Pending) (pendingTransactions (store w3))).
             id_tx x \<noteq> k)
       \<and> lookup (store w4) k = Some (t\<lparr>status := Failed, retryCount := 3\<rparr>)"
proof -
  have fate: "\<exists>tr. calls w' = calls w @ tr
              \<and> ((lookup (store w') k = None \<and> (\<exists>c\<in>set tr. settles (hash x) c))
                 \<or> lookup (store w') k =
                     Some (x\<lparr>status := (if retryCount x \<ge> 2 then Failed else Pending),
                             retryCount := retryCount x + 1\<rparr>))"
    if "store_ok id_tx (pendingTransactions (store w))" "\<not> isSyncing w"
      "lookup (store w) k = Some x" "status x = Pending"
      "syncPendingTransactions L w = (Inr c, w')" for w c w' x
    by (rule sync_fate [OF that(1,2,5,3,4)])
  have step: "lookup (store w') k =
              Some (x\<lparr>status := (if retryCount x \<ge> 2 then Failed else Pending),
                      retryCount := retryCount x + 1\<rparr>)"
    if a: "store_ok id_tx (pendingTransactions (store w))" "\<not> isSyncing w"
      "lookup (store w) k = Some x" "status x = Pending"
      "syncPendingTransactions L w = (Inr c, w')"
      "calls w' = calls w @ tr" "\<forall>c\<in>set tr. \<not> settles (hash x) c" for w c w' x tr
  proof -
    obtain tr' where tr': "calls w' = calls w @ tr'"
      and alt: "(lookup (store w') k = None \<and> (\<exists>c\<in>set tr'. settles (hash x) c))
                 \<or> lookup (store w') k =
                     Some (x\<lparr>status := (if retryCount x \<ge> 2 then Failed else Pending),
                             retryCount := retryCount x + 1\<rparr>)"
      using fate [OF a(1-5)] by blast
    have "tr' = tr" using tr' a(6) by simp
    then show ?thesis using alt a(7) by blast
  qed
  let ?t1 = "t\<lparr>status := Pending, retryCount := 1\<rparr>"
  let ?t2 = "t\<lparr>status := Pending, retryCount := 2\<rparr>"
  let ?t3 = "t\<lparr>status := Failed, retryCount := 3\<rparr>"
  have l1: "lookup (store w1) k = Some ?t1"
    using step [OF ok free got pend run1 tr1 un1] fresh by simp
  have ok1: "store_ok id_tx (pendingTransactions (store w1))" and free1: "\<not> isSyncing w1"
    using sync_effect(1,2) [OF ok free run1] by simp_all
  have l2: "lookup (store w2) k = Some ?t2"
    using step [OF ok1 free1 l1 _ run2 tr2] un2 fresh by simp
  have ok2: "store_ok id_tx (pendingTransactions (store w2))" and free2: "\<not> isSyncing w2"
    using sync_effect(1,2) [OF ok1 free1 run2] by simp_all
  have l3: "lookup (store w3) k = Some ?t3"
    using step [OF ok2 free2 l2 _ run3 tr3] un3 fresh by simp
  have ok3: "store_ok id_tx (pendingTransactions (store w3))" and free3: "\<not> isSyncing w3"
    using sync_effect(1,2) [OF ok2 free2 run3] by simp_all
  have l4: "lookup (store w4) k = Some ?t3"
    using sync_effect(4) [OF ok3 free3 run4 l3] by simp
  have m2: "?t2 \<in> set (filter (\<lambda>x. status x = Pending) (pendingTransactions (store w2)))"
    using store_get_Some [of id_tx k "pendingTransactions (store w2)" ?t2] l2
    by (simp add: lookup_def)
  have m3: "\<forall>x\<in>set (filter (\<lambda>x. status x = Pending) (pendingTransactions (store w3))).
             id_tx x \<noteq> k"
  proof
    fix x assume x: "x \<in> set (filter (\<lambda>x. status x = Pending) (pendingTransactions (store w3)))"
    show "id_tx x \<noteq> k"
    proof
      assume "id_tx x = k"
      then have "lookup (store w3) k = Some x"
        using store_get_mem [OF ok3, of x] x by (simp add: lookup_def)
      then have "x = t\<lparr>status := Failed, retryCount := 3\<rparr>" using l3 by simp
      then have "status x = Failed" by simp
      then show False using x by simp
    qed
  qed
  have body: "\<forall>tx p p' h a reply.
            syncOne L tx p = (Inr (), p')
            \<and> calls p' = calls p @ [DuplicateCheck h (Inr None), ProcessTransfer a reply]
            \<and> (\<forall>data. reply \<noteq> Inr (data, None)) \<longrightarrow>
            synced p' = synced p \<and> failed p' = failed p + 1
            \<and> lookup (store p') (id_tx tx) =
                map_option (\<lambda>t. t\<lparr>status := (if retryCount tx \<ge> 2 then Failed else Pending),
                                     retryCount := retryCount t + 1\<rparr>)
                  (lookup (store p) (id_tx tx))"
    using syncOne_submission_failed [of L] by blast
  have each: "\<forall>tx p p'. syncOne L tx p = (Inr (), p') \<longrightarrow>
            (\<exists>tr. calls p' = calls p @ tr
              \<and> ((synced p' = synced p + 1 \<and> failed p' = failed p
                    \<and> lookup (store p') (id_tx tx) = None
                    \<and> (\<exists>c\<in>set tr. settles (hash tx) c))
                 \<or> (synced p' = synced p \<and> failed p' = failed p + 1
                    \<and> lookup (store p') (id_tx tx) =
                        map_option (\<lambda>t. t\<lparr>status := (if retryCount tx \<ge> 2 then Failed else Pending),
                                             retryCount := retryCount t + 1\<rparr>)
                          (lookup (store p) (id_tx tx)))))"
    by (intro allI impI) (rule syncOne_fate)
  have remote_only: "\<forall>tx p r p'. faults (store p) = [] \<and> syncOne L tx p = (r, p')
            \<and> failed p' = failed p + 1 \<longrightarrow>
            (\<exists>e. calls p' = calls p @ [DuplicateCheck (hash tx) (Inl e)])
            \<or> (\<exists>reply. calls p' = calls p @ [DuplicateCheck (hash tx) (Inr None),
                                             ProcessTransfer (rpcArgs tx) reply]
                  \<and> (\<forall>data. reply \<noteq> Inr (data, None)))"
    using syncOne_remote_failure [of _ L] by blast
  have pass_fate: "\<forall>w c w' x.
            store_ok id_tx (pendingTransactions (store w)) \<and> \<not> isSyncing w
            \<and> lookup (store w) k = Some x \<and> status x = Pending
            \<and> syncPendingTransactions L w = (Inr c, w') \<longrightarrow>
            (\<exists>tr. calls w' = calls w @ tr
              \<and> ((lookup (store w') k = None \<and> (\<exists>c\<in>set tr. settles (hash x) c))
                 \<or> lookup (store w') k =
                     Some (x\<lparr>status := (if retryCount x \<ge> 2 then Failed else Pending),
                             retryCount := retryCount x + 1\<rparr>)))"
    using fate by blast
  have pass_step: "\<forall>w c w' x tr.
            store_ok id_tx (pendingTransactions (store w)) \<and> \<not> isSyncing w
            \<and> lookup (store w) k = Some x \<and> status x = Pending
            \<and> syncPendingTransactions L w = (Inr c, w')
            \<and> calls w' = calls w @ tr \<and> (\<forall>c\<in>set tr. \<not> settles (hash x) c) \<longrightarrow>
            lookup (store w') k =
              Some (x\<lparr>status := (if retryCount x \<ge> 2 then Failed else Pending),
                      retryCount := retryCount x + 1\<rparr>)"
    using step by blast
  have stays: "\<forall>w r w' x.
            store_ok id_tx (pendingTransactions (store w)) \<and> \<not> isSyncing w
            \<and> lookup (store w) k = Some x \<and> status x \<noteq> Pending
            \<and> syncPendingTransactions L w = (r, w') \<longrightarrow>
            lookup (store w') k = Some x
            \<and> store_ok id_tx (pendingTransactions (store w')) \<and> \<not> isSyncing w'"
    using sync_effect(1,2,4) by blast
  show ?thesis
    by (intro conjI; (fact body each remote_only pass_fate pass_step stays l1 l2 l3 l4 m2 m3))
qed

text \<open>
  The worlds of passes over the single record \<open>tx_a\<close> against \<open>ledger_down\<close>:
  \<open>world_down st n cs\<close> holds the record with status \<open>st\<close> and retry count \<open>n\<close>
  after the remote calls \<open>cs\<close>, and \<open>down_calls\<close> are the two remote calls of a pass
  whose storage requests all succeed. In \<open>world_down_fault\<close> the second storage request
  is rejected.
\<close>

definition down_calls :: "int remote_call list" where
  "down_calls = [DuplicateCheck ''3e1a0e66'' (Inr None),
                 ProcessTransfer (rpcArgs tx_a) (Inl (RemoteError ''network''))]"

definition world_down :: "status \<Rightarrow> nat \<Rightarrow> int remote_call list \<Rightarrow> (int, string list) world" where
  "world_down st n cs =
     \<lparr>store = \<lparr>pendingTransactions = [tx_a\<lparr>status := st, retryCount := n\<rparr>],
        cachedRecipients = [], deviceIdItem = Some ''dev-1'', faults = []\<rparr>,
      isSyncing = False, syncCallback = None, notified = [], remote = [], calls = cs\<rparr>"

definition world_down_fault :: "(int, string list) world" where
  "world_down_fault =
     \<lparr>store = \<lparr>pendingTransactions = [tx_a], cachedRecipients = [],
        deviceIdItem = Some ''dev-1'', faults = [False, True]\<rparr>,
      isSyncing = False, syncCallback = None, notified = [], remote = [], calls = []\<rparr>"

lemma world_down_fault_runs:
  "syncPendingTransactions ledger_down world_down_fault
     = (Inr (0, 1), world_down Pending 1 [])"
  "syncPendingTransactions ledger_down (world_down Pending 1 [])
     = (Inr (0, 1), world_down Pending 2 down_calls)"
  "syncPendingTransactions ledger_down (world_down Pending 2 down_calls)
     = (Inr (0, 1), world_down Failed 3 (down_calls @ down_calls))"
  "syncPendingTransactions ledger_down (world_down Failed 3 (down_calls @ down_calls))
     = (Inr (0, 0), world_down Failed 3 (down_calls @ down_calls))"
  by (simp_all add: run_defs world_down_fault_def world_down_def down_calls_def ledger_down_def
      tx_a_def)

text \<open>
  Three passes over a record whose receiver \<open>ledger_bob\<close> does not accept, in a remote
  state that holds the hash of another transfer: each pass makes the duplicate check
  and the submission, and the submission returns an error. The rule also covers the
  three passes from \<open>world_down_fault\<close>, the first of which fails at the store.
\<close>

definition erin_calls :: "int remote_call list" where
  "erin_calls = [DuplicateCheck ''0badcafe'' (Inr None),
                 ProcessTransfer (rpcArgs tx_d)
                   (Inr (None, Some (RemoteError ''invalid receiver'')))]"

definition world_erin :: "status \<Rightarrow> nat \<Rightarrow> int remote_call list \<Rightarrow> (int, string list) world" where
  "world_erin st n cs =
     \<lparr>store = \<lparr>pendingTransactions = [tx_d\<lparr>status := st, retryCount := n\<rparr>],
        cachedRecipients = [], deviceIdItem = Some ''dev-1'', faults = []\<rparr>,
      isSyncing = False, syncCallback = None, notified = [], remote = [''3e1a0e66''],
      calls = cs\<rparr>"

lemma world_erin_runs:
  "syncPendingTransactions ledger_bob (world_erin Pending 0 [])
     = (Inr (0, 1), world_erin Pending 1 erin_calls)"
  "syncPendingTransactions ledger_bob (world_erin Pending 1 erin_calls)
     = (Inr (0, 1), world_erin Pending 2 (erin_calls @ erin_calls))"
  "syncPendingTransactions ledger_bob (world_erin Pending 2 (erin_calls @ erin_calls))
     = (Inr (0, 1), world_erin Failed 3 (erin_calls @ erin_calls @ erin_calls))"
  "syncPendingTransactions ledger_bob (world_erin Failed 3 (erin_calls @ erin_calls @ erin_calls))
     = (Inr (0, 0), world_erin Failed 3 (erin_calls @ erin_calls @ erin_calls))"
  by (simp_all add: run_defs world_erin_def erin_calls_def ledger_bob_def tx_d_def)

theorem retry_threshold_witness:
  "store_ok id_tx (pendingTransactions (store (world_erin Pending 0 [])))
   \<and> \<not> isSyncing (world_erin Pending 0 [])
   \<and> lookup (store (world_erin Pending 0 [])) (id_tx tx_d) = Some (tx_d\<lparr>retryCount := 0\<rparr>)
   \<and> status (tx_d\<lparr>retryCount := 0\<rparr>) = Pending
   \<and> filter (settles (hash tx_d)) erin_calls = []
   \<and> lookup (store (world_erin Pending 1 erin_calls)) (id_tx tx_d)
       = Some (tx_d\<lparr>status := Pending, retryCount := 1\<rparr>)
   \<and> lookup (store (world_erin Pending 2 (erin_calls @ erin_calls))) (id_tx tx_d)
       = Some (tx_d\<lparr>status := Pending, retryCount := 2\<rparr>)
   \<and> lookup (store (world_erin Failed 3 (erin_calls @ erin_calls @ erin_calls))) (id_tx tx_d)
       = Some (tx_d\<lparr>status := Failed, retryCount := 3\<rparr>)
   \<and> filter (\<lambda>x. status x = Pending)
         (pendingTransactions (store (world_erin Failed 3 (erin_calls @ erin_calls @ erin_calls))))
       = []
   \<and> store_ok id_tx (pendingTransactions (store world_down_fault))
   \<and> \<not> isSyncing world_down_fault
   \<and> lookup (store world_down_fault) (id_tx tx_a) = Some tx_a
   \<and> status tx_a = Pending \<and> retryCount tx_a = 0
   \<and> filter (settles (hash tx_a)) down_calls = []
   \<and> lookup (store (world_down Pending 1 [])) (id_tx tx_a)
       = Some (tx_a\<lparr>status := Pending, retryCount := 1\<rparr>)
   \<and> lookup (store (world_down Pending 2 down_calls)) (id_tx tx_a)
       = Some (tx_a\<lparr>status := Pending, retryCount := 2\<rparr>)
   \<and> lookup (store (world_down Failed 3 (down_calls @ down_calls))) (id_tx tx_a)
       = Some (tx_a\<lparr>status := Failed, retryCount := 3\<rparr>)"
proof -
  let ?w0 = "world_erin Pending 0 []"
  let ?t = "tx_d\<lparr>retryCount := 0\<rparr>"
  have ok: "store_ok id_tx (pendingTransactions (store ?w0))"
    by (simp add: world_erin_def store_ok_def)
  have free: "\<not> isSyncing ?w0" by (simp add: world_erin_def)
  have got: "lookup (store ?w0) (id_tx tx_d) = Some ?t"
    by (simp add: world_erin_def lookup_def store_get_def tx_d_def)
  have pend: "status ?t = Pending" and fresh: "retryCount ?t = 0"
    by (simp_all add: tx_d_def)
  have un: "\<forall>c\<in>set erin_calls. \<not> settles (hash ?t) c"
    by (simp add: erin_calls_def tx_d_def)
  have tr: "calls (world_erin Pending 1 erin_calls) = calls ?w0 @ erin_calls"
      "calls (world_erin Pending 2 (erin_calls @ erin_calls))
         = calls (world_erin Pending 1 erin_calls) @ erin_calls"
      "calls (world_erin Failed 3 (erin_calls @ erin_calls @ erin_calls))
         = calls (world_erin Pending 2 (erin_calls @ erin_calls)) @ erin_calls"
    by (simp_all add: world_erin_def)
  note T = retry_threshold [OF ok free got pend fresh
      world_erin_runs(1) tr(1) un world_erin_runs(2) tr(2) un world_erin_runs(3) tr(3) un
      world_erin_runs(4)]
  have l: "lookup (store (world_erin Pending 1 erin_calls)) (id_tx tx_d)
       = Some (?t\<lparr>status := Pending, retryCount := 1\<rparr>)
   \<and> lookup (store (world_erin Pending 2 (erin_calls @ erin_calls))) (id_tx tx_d)
       = Some (?t\<lparr>status := Pending, retryCount := 2\<rparr>)
   \<and> lookup (store (world_erin Failed 3 (erin_calls @ erin_calls @ erin_calls))) (id_tx tx_d)
       = Some (?t\<lparr>status := Failed, retryCount := 3\<rparr>)"
    using T by blast
  have none: "filter (\<lambda>x. status x = Pending)
         (pendingTransactions (store (world_erin Failed 3 (erin_calls @ erin_calls @ erin_calls))))
       = []"
    by (simp add: world_erin_def)
  have un': "filter (settles (hash tx_d)) erin_calls = []"
    by (simp add: erin_calls_def tx_d_def)
  have okf: "store_ok id_tx (pendingTransactions (store world_down_fault))"
    by (simp add: world_down_fault_def store_ok_def)
  have freef: "\<not> isSyncing world_down_fault" by (simp add: world_down_fault_def)
  have gotf: "lookup (store world_down_fault) (id_tx tx_a) = Some tx_a"
    by (simp add: world_down_fault_def lookup_def store_get_def)
  have pendf: "status tx_a = Pending" and freshf: "retryCount tx_a = 0"
    by (simp_all add: tx_a_def)
  have unf0: "\<forall>c\<in>set ([] :: int remote_call list). \<not> settles (hash tx_a) c" by simp
  have unf: "\<forall>c\<in>set down_calls. \<not> settles (hash tx_a) c"
    by (simp add: down_calls_def tx_a_def)
  have trf: "calls (world_down Pending 1 []) = calls world_down_fault @ []"
      "calls (world_down Pending 2 down_calls) = calls (world_down Pending 1 []) @ down_calls"
      "calls (world_down Failed 3 (down_calls @ down_calls))
         = calls (world_down Pending 2 down_calls) @ down_calls"
    by (simp_all add: world_down_def world_down_fault_def)
  note F = retry_threshold [OF okf freef gotf pendf freshf
      world_down_fault_runs(1) trf(1) unf0 world_down_fault_runs(2) trf(2) unf
      world_down_fault_runs(3) trf(3) unf world_down_fault_runs(4)]
  have lf: "lookup (store (world_down Pending 1 [])) (id_tx tx_a)
       = Some (tx_a\<lparr>status := Pending, retryCount := 1\<rparr>)
   \<and> lookup (store (world_down Pending 2 down_calls)) (id_tx tx_a)
       = Some (tx_a\<lparr>status := Pending, retryCount := 2\<rparr>)
   \<and> lookup (store (world_down Failed 3 (down_calls @ down_calls))) (id_tx tx_a)
       = Some (tx_a\<lparr>status := Failed, retryCount := 3\<rparr>)"
    using F by blast
  have unf': "filter (settles (hash tx_a)) down_calls = []"
    by (simp add: down_calls_def tx_a_def)
  show ?thesis using l ok free got pend none un' okf freef gotf pendf freshf unf' lf by simp
qed

text \<open>
  Claim C2 as stated counts failed remote calls, and so fails where the store rejects
  a request of the \<^verbatim>\<open>try\<close> block. In \<open>world_down_fault\<close> the second storage request of the
  first pass (the read that starts marking \<open>tx_a\<close> as syncing) is rejected: the attempt
  fails before any remote call, the pass returns \<open>(0, 1)\<close> and the retry count
  becomes 1. The next two passes each make one submission, which fails. After the
  second failed remote call the record is failed with retry count 3; it is not set back
  to pending and not retried.
\<close>

theorem retry_counts_failed_attempts:
  "status tx_a = Pending \<and> retryCount tx_a = 0
   \<and> syncPendingTransactions ledger_down world_down_fault
     = (Inr (0, 1), world_down Pending 1 [])
   \<and> syncPendingTransactions ledger_down (world_down Pending 1 [])
     = (Inr (0, 1), world_down Pending 2 down_calls)
   \<and> syncPendingTransactions ledger_down (world_down Pending 2 down_calls)
     = (Inr (0, 1), world_down Failed 3 (down_calls @ down_calls))
   \<and> calls (world_down Failed 3 (down_calls @ down_calls))
     = [DuplicateCheck ''3e1a0e66'' (Inr None),
        ProcessTransfer (rpcArgs tx_a) (Inl (RemoteError ''network'')),
        DuplicateCheck ''3e1a0e66'' (Inr None),
        ProcessTransfer (rpcArgs tx_a) (Inl (RemoteError ''network''))]
   \<and> lookup (store (world_down Failed 3 (down_calls @ down_calls))) (id_tx tx_a)
     = Some (tx_a\<lparr>status := Failed, retryCount := 3\<rparr>)"
proof -
  have a: "status tx_a = Pending" "retryCount tx_a = 0" by (simp_all add: tx_a_def)
  have b: "calls (world_down Failed 3 (down_calls @ down_calls))
     = [DuplicateCheck ''3e1a0e66'' (Inr None),
        ProcessTransfer (rpcArgs tx_a) (Inl (RemoteError ''network'')),
        DuplicateCheck ''3e1a0e66'' (Inr None),
        ProcessTransfer (rpcArgs tx_a) (Inl (RemoteError ''network''))]"
    by (simp add: world_down_def down_calls_def)
  have c: "lookup (store (world_down Failed 3 (down_calls @ down_calls))) (id_tx tx_a)
     = Some (tx_a\<lparr>status := Failed, retryCount := 3\<rparr>)"
    by (simp add: world_down_def lookup_def store_get_def)
  show ?thesis using a b c world_down_fault_runs(1-3) by simp
qed

section \<open>Enqueued records (claims C5 and C6)\<close>

lemma generateHash_fields:
  "senderId x = senderId y \<Longrightarrow> receiverId x = receiverId y \<Longrightarrow> amount x = amount y \<Longrightarrow>
   timestamp x = timestamp y \<Longrightarrow> deviceId x = deviceId y \<Longrightarrow>
   generateHash showNumber x = generateHash showNumber y"
  by (simp add: generateHash_def)

text \<open>The record that \<open>addPendingTransaction\<close> builds, and what it does to the store.\<close>

lemma addPendingTransaction_result:
  assumes "addPendingTransaction showNumber uuid now tx d = (Inr t, d')"
  shows "t = \<lparr>senderId = senderId tx, receiverId = receiverId tx,
              receiverPhone = receiverPhone tx, amount = amount tx,
              description = description tx, timestamp = now, status = Pending,
              retryCount = 0, deviceId = fst (getDeviceId uuid d),
              id_tx = ''tx-'' @ show_nat now @ ''-'' @ hash t,
              hash = hash t\<rparr>"
    and "hash t = generateHash showNumber t"
    and "pendingTransactions d' = store_put id_tx t (pendingTransactions d)"
proof -
  obtain dev d0 where g: "getDeviceId uuid d = (dev, d0)" by (cases "getDeviceId uuid d")
  have d0: "pendingTransactions d0 = pendingTransactions d"
    using g by (auto simp: getDeviceId_def split: option.splits if_splits)
  let ?full = "TransactionInput.extend tx (FullTx.fields now Pending 0 dev)"
  let ?h = "generateHash showNumber ?full"
  let ?t = "FullTx.extend ?full (PendingTransaction.fields (''tx-'' @ show_nat now @ ''-'' @ take 8 ?h) ?h)"
  have run: "t = ?t \<and> pendingTransactions d' = store_put id_tx ?t (pendingTransactions d0)"
    using assms g
    by (auto simp: addPendingTransaction_def Let_def and_then_def db_put_tx_def request_def
        split: list.splits if_splits)
  have take: "take 8 ?h = ?h" using generateHash_length [of showNumber ?full] by simp
  have t: "t = \<lparr>senderId = senderId tx, receiverId = receiverId tx,
              receiverPhone = receiverPhone tx, amount = amount tx,
              description = description tx, timestamp = now, status = Pending,
              retryCount = 0, deviceId = dev,
              id_tx = ''tx-'' @ show_nat now @ ''-'' @ ?h, hash = ?h\<rparr>"
    using run unfolding take
    by (simp add: TransactionInput.defs FullTx.defs PendingTransaction.defs)
  have h: "hash t = ?h" using t by simp
  have same: "generateHash showNumber t = ?h"
    by (rule generateHash_fields)
      (simp_all add: t TransactionInput.defs FullTx.defs)
  show "hash t = generateHash showNumber t" using h same by simp
  show "t = \<lparr>senderId = senderId tx, receiverId = receiverId tx,
              receiverPhone = receiverPhone tx, amount = amount tx,
              description = description tx, timestamp = now, status = Pending,
              retryCount = 0, deviceId = fst (getDeviceId uuid d),
              id_tx = ''tx-'' @ show_nat now @ ''-'' @ hash t,
              hash = hash t\<rparr>"
    using t g h by simp
  show "pendingTransactions d' = store_put id_tx t (pendingTransactions d)"
    using run d0 by simp
qed

lemma store_put_set: "set (store_put key v xs) \<subseteq> insert v (set xs)"
  by (induction xs) auto

lemma store_put_keeps:
  "x \<in> set xs \<Longrightarrow> key x \<noteq> key v \<Longrightarrow> x \<in> set (store_put key v xs)"
  by (induction xs) auto


text \<open>
  What the operations that follow an enqueue may do to the queue: every record of the
  later store is a record of the earlier store in which at most the status and the retry
  count differ. In particular its hash and the five hashed fields are as before.
\<close>

definition same_transfer :: "'n PendingTransaction \<Rightarrow> 'n PendingTransaction \<Rightarrow> bool" where
  "same_transfer x x' = (x' = x\<lparr>status := status x', retryCount := retryCount x'\<rparr>)"

definition only_status_changed :: "'n db \<Rightarrow> 'n db \<Rightarrow> bool" where
  "only_status_changed d d' =
     (\<forall>x'\<in>set (pendingTransactions d'). \<exists>x\<in>set (pendingTransactions d). same_transfer x x')"

lemma same_transfer_refl [simp]: "same_transfer x x"
  by (simp add: same_transfer_def)

lemma same_transfer_update [simp]: "same_transfer x (x\<lparr>status := s, retryCount := n\<rparr>)"
  by (simp add: same_transfer_def)

lemma same_transfer_trans: "same_transfer x y \<Longrightarrow> same_transfer y z \<Longrightarrow> same_transfer x z"
proof -
  assume a: "same_transfer x y" and b: "same_transfer y z"
  have "z = y\<lparr>status := status z, retryCount := retryCount z\<rparr>"
    using b by (simp add: same_transfer_def)
  also have "y = x\<lparr>status := status y, retryCount := retryCount y\<rparr>"
    using a by (simp add: same_transfer_def)
  finally show ?thesis by (simp add: same_transfer_def)
qed

lemma same_transfer_fields:
  "same_transfer x x' \<Longrightarrow>
     hash x' = hash x \<and> id_tx x' = id_tx x \<and> senderId x' = senderId x
     \<and> receiverId x' = receiverId x \<and> amount x' = amount x \<and> timestamp x' = timestamp x
     \<and> deviceId x' = deviceId x \<and> description x' = description x
     \<and> receiverPhone x' = receiverPhone x"
proof -
  assume "same_transfer x x'"
  then have e: "x' = x\<lparr>status := status x', retryCount := retryCount x'\<rparr>"
    by (simp add: same_transfer_def)
  show ?thesis by (subst e, simp)+
qed

lemma same_transfer_self: "x \<in> A \<Longrightarrow> \<exists>y\<in>A. same_transfer y x"
  by (rule bexI [of _ x]) simp_all

lemma same_transfer_upd: "x \<in> A \<Longrightarrow> \<exists>y\<in>A. same_transfer y (x\<lparr>status := s, retryCount := n\<rparr>)"
  by (rule bexI [of _ x]) simp_all

lemma only_status_changed_refl: "only_status_changed d d"
  by (auto simp: only_status_changed_def same_transfer_self)

lemma only_status_changed_same:
  "pendingTransactions d' = pendingTransactions d \<Longrightarrow> only_status_changed d d'"
  by (auto simp: only_status_changed_def same_transfer_self)

lemma only_status_changed_trans:
  "only_status_changed d1 d2 \<Longrightarrow> only_status_changed d2 d3 \<Longrightarrow> only_status_changed d1 d3"
  unfolding only_status_changed_def by (meson same_transfer_trans)

lemma same_transfer_status [simp]: "same_transfer x (x\<lparr>status := s\<rparr>)"
  by (simp add: same_transfer_def)

lemma put_keeps:
  assumes t: "t \<in> set (pendingTransactions d)" and v: "same_transfer t v"
    and d': "pendingTransactions d' = store_put id_tx v (pendingTransactions d)"
  shows "only_status_changed d d'"
  unfolding only_status_changed_def
proof
  fix x' assume "x' \<in> set (pendingTransactions d')"
  then have "x' = v \<or> x' \<in> set (pendingTransactions d)"
    using store_put_set [of id_tx v "pendingTransactions d"] d' by auto
  then show "\<exists>x\<in>set (pendingTransactions d). same_transfer x x'"
    using t v same_transfer_self by blast
qed

lemma update_keeps:
  "only_status_changed d (snd (updateTransactionStatus k st inc d))"
proof -
  let ?d' = "snd (updateTransactionStatus k st inc d)"
  let ?v = "\<lambda>t::'a PendingTransaction. t\<lparr>status := st,
      retryCount := (if inc then retryCount t + 1 else retryCount t)\<rparr>"
  have "pendingTransactions ?d' = pendingTransactions d
      \<or> (\<exists>t. store_get id_tx k (pendingTransactions d) = Some t
            \<and> pendingTransactions ?d' = store_put id_tx (?v t) (pendingTransactions d))"
    by (auto simp: updateTransactionStatus_def and_then_def db_get_tx_def db_put_tx_def request_def
        split: list.splits option.splits)
  moreover have "same_transfer t (?v t)" for t by simp
  ultimately show ?thesis
    using only_status_changed_same put_keeps store_get_Some by meson
qed

lemma delete_keeps: "only_status_changed d (snd (deleteTransaction k d))"
  by (auto simp: deleteTransaction_def db_delete_tx_def request_def store_delete_def
      only_status_changed_def same_transfer_self split: list.splits)

lemma deleteFinished_keeps:
  "only_status_changed d (snd (deleteFinished items d))"
proof (induction items arbitrary: d)
  case Nil
  then show ?case by (simp add: only_status_changed_refl)
next
  case (Cons item rest)
  show ?case
  proof (cases "status item \<noteq> Pending \<and> status item \<noteq> Syncing")
    case True
    obtain r1 d1 where del: "db_delete_tx (id_tx item) d = (r1, d1)"
      by (cases "db_delete_tx (id_tx item) d")
    have k1: "only_status_changed d d1"
      using delete_keeps [of d "id_tx item"] del by (simp add: deleteTransaction_def)
    show ?thesis
    proof (cases r1)
      case (Inl e)
      then show ?thesis using True del k1 by simp
    next
      case (Inr u)
      then show ?thesis
        using True del only_status_changed_trans [OF k1 Cons.IH [of d1]] by simp
    qed
  next
    case False
    then show ?thesis using Cons.IH [of d] by auto
  qed
qed

lemma clear_keeps: "only_status_changed d (snd (clearSyncedTransactions d))"
proof -
  obtain r1 d1 where g: "db_getAll_tx d = (r1, d1)" by (cases "db_getAll_tx d")
  have same: "pendingTransactions d1 = pendingTransactions d"
    using g by (auto simp: db_getAll_tx_def request_def split: list.splits if_splits)
  show ?thesis
  proof (cases r1)
    case (Inl e)
    then show ?thesis using g same
      by (simp add: clearSyncedTransactions_def only_status_changed_same)
  next
    case (Inr all)
    obtain r2 d2 where f: "deleteFinished all d1 = (r2, d2)" by (cases "deleteFinished all d1")
    have k: "only_status_changed d d2"
      using deleteFinished_keeps [of d1 all] f same
      by (simp add: only_status_changed_def)
    show ?thesis using g Inr f k same
      by (auto simp: clearSyncedTransactions_def and_then_def request_def only_status_changed_same
          only_status_changed_def same_transfer_self split: sum.splits list.splits if_splits)
  qed
qed


lemma tryBlock_keeps:
  assumes run: "tryBlock L tx p = (r, p')"
  shows "only_status_changed (store p) (store p')"
proof -
  obtain u1 d1 where upd: "updateTransactionStatus (id_tx tx) Syncing False (store p) = (u1, d1)"
    and alt: "store p' = d1 \<or> (\<exists>rd. deleteTransaction (id_tx tx) d1 = (rd, store p'))"
    using tryBlock_steps [OF run] by blast
  have k1: "only_status_changed (store p) d1"
    using update_keeps [of "store p" "id_tx tx" Syncing False] upd by simp
  from alt show ?thesis
  proof
    assume "store p' = d1"
    then show ?thesis using k1 by simp
  next
    assume "\<exists>rd. deleteTransaction (id_tx tx) d1 = (rd, store p')"
    then obtain rd where "deleteTransaction (id_tx tx) d1 = (rd, store p')" by blast
    then have "only_status_changed d1 (store p')"
      using delete_keeps [of d1 "id_tx tx"] by simp
    then show ?thesis using k1 only_status_changed_trans by blast
  qed
qed

lemma syncOne_keeps:
  assumes run: "syncOne L tx p = (r, p')"
  shows "only_status_changed (store p) (store p')"
proof -
  let ?st = "if retryCount tx \<ge> 2 then Failed else Pending"
  obtain rt pt where t: "tryBlock L tx p = (rt, pt)" and alt:
    "p' = pt \<or> updateTransactionStatus (id_tx tx) ?st True (store pt) = (r, store p')"
    using syncOne_steps [OF run] by blast
  note k1 = tryBlock_keeps [OF t]
  from alt show ?thesis
  proof
    assume "p' = pt"
    then show ?thesis using k1 by simp
  next
    assume "updateTransactionStatus (id_tx tx) ?st True (store pt) = (r, store p')"
    then have "only_status_changed (store pt) (store p')"
      using update_keeps [of "store pt" "id_tx tx" ?st True] by simp
    then show ?thesis using k1 only_status_changed_trans by blast
  qed
qed

lemma syncLoop_keeps:
  "syncLoop L txs p = (r, p') \<Longrightarrow> only_status_changed (store p) (store p')"
proof (induction txs arbitrary: p)
  case Nil
  then show ?case by (simp add: only_status_changed_refl)
next
  case (Cons tx rest)
  obtain r1 p1 where one: "syncOne L tx p = (r1, p1)" by (cases "syncOne L tx p")
  note k1 = syncOne_keeps [OF one]
  show ?case
  proof (cases r1)
    case (Inl e)
    then have "p' = p1" using Cons.prems one by (simp add: and_then_def)
    then show ?thesis using k1 by simp
  next
    case (Inr u)
    then have "syncLoop L rest p1 = (r, p')" using Cons.prems one by (simp add: and_then_def)
    from Cons.IH [OF this] show ?thesis using k1 only_status_changed_trans by blast
  qed
qed

lemma sync_keeps:
  "only_status_changed (store w) (store (snd (syncPendingTransactions L w)))"
proof (cases "isSyncing w")
  case True
  then show ?thesis by (simp add: syncPendingTransactions_def only_status_changed_refl)
next
  case False
  obtain r w' where run: "syncPendingTransactions L w = (r, w')"
    by (cases "syncPendingTransactions L w")
  obtain p p' where d: "drain L p = (r, p')" and p: "store p = store w"
    and w': "store w' = store p'"
    using sync_run [OF False run] by blast
  from drain_steps [OF d, unfolded p] have "only_status_changed (store w) (store p')"
  proof (elim disjE exE conjE)
    assume "pendingTransactions (store p') = pendingTransactions (store w)"
    then show ?thesis by (rule only_status_changed_same)
  next
    fix p0 rl pl
    assume l: "syncLoop L (filter (\<lambda>t. status t = Pending) (pendingTransactions (store w))) p0
        = (rl, pl)"
      and p0: "pendingTransactions (store p0) = pendingTransactions (store w)"
      and pl: "store p' = store pl"
    have "only_status_changed (store w) (store p0)"
      using p0 by (rule only_status_changed_same)
    then show ?thesis
      using syncLoop_keeps [OF l] pl only_status_changed_trans by fastforce
  qed
  then show ?thesis using run w' by simp
qed


text \<open>Two inputs that differ in the description only, and an empty queue.\<close>

definition input_a :: "int TransactionInput" where
  "input_a = \<lparr>senderId = ''alice'', receiverId = ''bob'', receiverPhone = Some ''PAY-BOB'',
     amount = 100, description = None\<rparr>"

definition input_a' :: "int TransactionInput" where
  "input_a' = input_a\<lparr>description := Some ''gift''\<rparr>"

definition tx_a' :: "int PendingTransaction" where
  "tx_a' = tx_a\<lparr>description := Some ''gift''\<rparr>"

definition db_empty :: "int db" where
  "db_empty = \<lparr>pendingTransactions = [], cachedRecipients = [],
     deviceIdItem = Some ''dev-1'', faults = []\<rparr>"

lemma hash_a:
  "generateHash show_int
     (\<lparr>senderId = ''alice'', receiverId = ''bob'', receiverPhone = ph, amount = 100,
       description = ds, timestamp = 1000, status = st, retryCount = n,
       deviceId = ''dev-1''\<rparr> :: int FullTx) = ''3e1a0e66''"
  unfolding generateHash_def
  apply (simp add: show_int_def show_nat.simps digit_char_def)
  apply (simp add: hashStep_def)
  apply (simp add: toHex.simps digit_char_def padStart_def)
  done

lemma enqueue_a:
  "addPendingTransaction show_int ''uuid-9'' 1000 input_a db_empty
     = (Inr tx_a, db_empty\<lparr>pendingTransactions := [tx_a]\<rparr>)"
  by (simp add: addPendingTransaction_def getDeviceId_def db_empty_def input_a_def tx_a_def
      TransactionInput.defs FullTx.defs PendingTransaction.defs hash_a Let_def
      and_then_def db_put_tx_def request_def show_nat.simps digit_char_def)

lemma enqueue_a':
  "addPendingTransaction show_int ''uuid-9'' 1000 input_a' (db_empty\<lparr>pendingTransactions := [tx_a]\<rparr>)
     = (Inr tx_a', db_empty\<lparr>pendingTransactions := [tx_a']\<rparr>)"
  by (simp add: addPendingTransaction_def getDeviceId_def db_empty_def input_a'_def input_a_def
      tx_a'_def tx_a_def
      TransactionInput.defs FullTx.defs PendingTransaction.defs hash_a Let_def
      and_then_def db_put_tx_def request_def show_nat.simps digit_char_def)


text \<open>
  Claim C5. The record that \<open>addPendingTransaction\<close> returns is the record it has
  stored; its status is pending and its retry count 0; its sender, receiver and amount
  are the input's, its timestamp is the clock's value and its device the device id; its
  hash is \<open>generateHash\<close> of the record, which reads only the five fields sender,
  receiver, amount, timestamp and device: two enqueued records that agree on these five
  have the same hash. No operation recomputes a hash: a further enqueue leaves every
  record but its own as it was, and after \<open>updateTransactionStatus\<close>,
  \<open>deleteTransaction\<close>, \<open>clearSyncedTransactions\<close> and a pass of the sync engine every
  record in the queue is a record that was there before, changed at most in status and
  retry count.
\<close>

theorem enqueue_record:
  fixes d1 d2 :: "'n db"
  assumes e1: "addPendingTransaction showNumber u1 now1 in1 d1 = (Inr t1, d1')"
    and e2: "addPendingTransaction showNumber u2 now2 in2 d2 = (Inr t2, d2')"
  shows "status t1 = Pending \<and> retryCount t1 = 0
       \<and> lookup d1' (id_tx t1) = Some t1
       \<and> senderId t1 = senderId in1 \<and> receiverId t1 = receiverId in1
       \<and> amount t1 = amount in1 \<and> timestamp t1 = now1
       \<and> deviceId t1 = fst (getDeviceId u1 d1)
       \<and> hash t1 = generateHash showNumber t1
       \<and> (senderId t1 = senderId t2 \<and> receiverId t1 = receiverId t2 \<and> amount t1 = amount t2
            \<and> timestamp t1 = timestamp t2 \<and> deviceId t1 = deviceId t2
            \<longrightarrow> hash t1 = hash t2)
       \<and> (\<forall>x\<in>set (pendingTransactions d1'). x = t1 \<or> x \<in> set (pendingTransactions d1))
       \<and> (\<forall>k st inc (d :: 'n db).
             only_status_changed d (snd (updateTransactionStatus k st inc d)))
       \<and> (\<forall>k (d :: 'n db). only_status_changed d (snd (deleteTransaction k d)))
       \<and> (\<forall>d :: 'n db. only_status_changed d (snd (clearSyncedTransactions d)))
       \<and> (\<forall>(L :: ('n, 'r) ledger) w.
             only_status_changed (store w) (store (snd (syncPendingTransactions L w))))
       \<and> (\<forall>(d :: 'n db) d'. only_status_changed d d' \<longrightarrow>
             (\<forall>x'\<in>set (pendingTransactions d'). \<exists>x\<in>set (pendingTransactions d).
                id_tx x' = id_tx x \<and> hash x' = hash x))"
proof -
  note R1 = addPendingTransaction_result [OF e1] and R2 = addPendingTransaction_result [OF e2]
  have f1: "status t1 = Pending \<and> retryCount t1 = 0
       \<and> senderId t1 = senderId in1 \<and> receiverId t1 = receiverId in1
       \<and> amount t1 = amount in1 \<and> timestamp t1 = now1
       \<and> deviceId t1 = fst (getDeviceId u1 d1)"
    by (subst R1(1), simp)+
  have stored: "lookup d1' (id_tx t1) = Some t1"
    using R1(3) by (simp add: lookup_def store_get_put)
  have same: "hash t1 = hash t2"
    if "senderId t1 = senderId t2 \<and> receiverId t1 = receiverId t2 \<and> amount t1 = amount t2
            \<and> timestamp t1 = timestamp t2 \<and> deviceId t1 = deviceId t2"
    using R1(2) R2(2) generateHash_fields [of t1 t2 showNumber] that by simp
  have others: "\<forall>x\<in>set (pendingTransactions d1'). x = t1 \<or> x \<in> set (pendingTransactions d1)"
    using R1(3) store_put_set [of id_tx t1 "pendingTransactions d1"] by auto
  have hashes: "\<forall>x'\<in>set (pendingTransactions d'). \<exists>x\<in>set (pendingTransactions d).
                id_tx x' = id_tx x \<and> hash x' = hash x"
    if "only_status_changed d d'" for d d' :: "'n db"
    using that same_transfer_fields unfolding only_status_changed_def by fast
  show ?thesis
    using f1 stored R1(2) same others update_keeps delete_keeps clear_keeps sync_keeps hashes
    by blast
qed

theorem enqueue_record_witness:
  "addPendingTransaction show_int ''uuid-9'' 1000 input_a db_empty
     = (Inr tx_a, db_empty\<lparr>pendingTransactions := [tx_a]\<rparr>)
   \<and> addPendingTransaction show_int ''uuid-9'' 1000 input_a'
       (db_empty\<lparr>pendingTransactions := [tx_a]\<rparr>)
     = (Inr tx_a', db_empty\<lparr>pendingTransactions := [tx_a']\<rparr>)
   \<and> status tx_a = Pending \<and> retryCount tx_a = 0
   \<and> lookup (db_empty\<lparr>pendingTransactions := [tx_a]\<rparr>) (id_tx tx_a) = Some tx_a
   \<and> senderId tx_a = senderId tx_a' \<and> receiverId tx_a = receiverId tx_a'
   \<and> amount tx_a = amount tx_a' \<and> timestamp tx_a = timestamp tx_a'
   \<and> deviceId tx_a = deviceId tx_a'
   \<and> hash tx_a = ''3e1a0e66'' \<and> hash tx_a' = ''3e1a0e66''
   \<and> only_status_changed db_abc
       (snd (updateTransactionStatus ''tx-1000-3e1a0e66'' Failed True db_abc))"
proof -
  note T = enqueue_record [OF enqueue_a enqueue_a']
  have fields: "senderId tx_a = senderId tx_a' \<and> receiverId tx_a = receiverId tx_a'
   \<and> amount tx_a = amount tx_a' \<and> timestamp tx_a = timestamp tx_a'
   \<and> deviceId tx_a = deviceId tx_a'"
    by (simp add: tx_a'_def)
  have h: "hash tx_a = ''3e1a0e66''" by (simp add: tx_a_def)
  have h': "hash tx_a' = ''3e1a0e66''" by (simp add: tx_a'_def tx_a_def)
  have u: "only_status_changed db_abc
       (snd (updateTransactionStatus ''tx-1000-3e1a0e66'' Failed True db_abc))"
    using T by blast
  have a: "status tx_a = Pending \<and> retryCount tx_a = 0
   \<and> lookup (db_empty\<lparr>pendingTransactions := [tx_a]\<rparr>) (id_tx tx_a) = Some tx_a"
    using T by blast
  show ?thesis using a enqueue_a enqueue_a' fields h h' u by blast
qed

text \<open>
  Claim C6 fails as stated: two enqueues in the same millisecond whose inputs agree on
  sender, receiver and amount get the same identifier, and the second record replaces the
  first in the store, although the two differ (here in the description).
\<close>

theorem enqueue_overwrites:
  "addPendingTransaction show_int ''uuid-9'' 1000 input_a db_empty
     = (Inr tx_a, db_empty\<lparr>pendingTransactions := [tx_a]\<rparr>)
   \<and> addPendingTransaction show_int ''uuid-9'' 1000 input_a'
       (db_empty\<lparr>pendingTransactions := [tx_a]\<rparr>)
     = (Inr tx_a', db_empty\<lparr>pendingTransactions := [tx_a']\<rparr>)
   \<and> id_tx tx_a' = id_tx tx_a \<and> tx_a' \<noteq> tx_a
   \<and> lookup (db_empty\<lparr>pendingTransactions := [tx_a']\<rparr>) (id_tx tx_a) \<noteq> Some tx_a"
proof -
  have "id_tx tx_a' = id_tx tx_a \<and> tx_a' \<noteq> tx_a
   \<and> lookup (db_empty\<lparr>pendingTransactions := [tx_a']\<rparr>) (id_tx tx_a) \<noteq> Some tx_a"
    by (simp add: tx_a'_def tx_a_def lookup_def store_get_def)
  then show ?thesis using enqueue_a enqueue_a' by blast
qed

text \<open>
  Claim C6, as amended. The identifiers of two enqueued records are equal exactly when
  the records have the same timestamp and the same hash; so records created in different
  milliseconds, or with different hashes, have different identifiers. An enqueue keeps
  every stored record whose identifier differs from the new one: it replaces at most the
  record that has the same timestamp and hash.
\<close>

theorem enqueue_identifier:
  fixes d1 d2 :: "'n db"
  assumes e1: "addPendingTransaction showNumber u1 now1 in1 d1 = (Inr t1, d1')"
    and e2: "addPendingTransaction showNumber u2 now2 in2 d2 = (Inr t2, d2')"
  shows "(id_tx t1 = id_tx t2 \<longleftrightarrow> timestamp t1 = timestamp t2 \<and> hash t1 = hash t2)
       \<and> (\<forall>x\<in>set (pendingTransactions d1).
             id_tx x \<noteq> id_tx t1 \<longrightarrow> x \<in> set (pendingTransactions d1'))"
proof -
  note R1 = addPendingTransaction_result [OF e1] and R2 = addPendingTransaction_result [OF e2]
  have i1: "id_tx t1 = ''tx-'' @ show_nat now1 @ ''-'' @ hash t1" and ts1: "timestamp t1 = now1"
    by (subst R1(1), simp)+
  have i2: "id_tx t2 = ''tx-'' @ show_nat now2 @ ''-'' @ hash t2" and ts2: "timestamp t2 = now2"
    by (subst R2(1), simp)+
  have len: "length (hash t1) = 8" "length (hash t2) = 8"
    using R1(2) R2(2) generateHash_length by metis+
  have "id_tx t1 = id_tx t2 \<longleftrightarrow> show_nat now1 @ ''-'' @ hash t1 = show_nat now2 @ ''-'' @ hash t2"
    unfolding i1 i2 by simp
  also have "\<dots> \<longleftrightarrow> show_nat now1 = show_nat now2 \<and> ''-'' @ hash t1 = ''-'' @ hash t2"
    by (rule append_eq_append_conv) (simp add: len)
  also have "\<dots> \<longleftrightarrow> now1 = now2 \<and> hash t1 = hash t2"
    using show_nat_inj by auto
  finally have ids: "id_tx t1 = id_tx t2 \<longleftrightarrow> timestamp t1 = timestamp t2 \<and> hash t1 = hash t2"
    unfolding ts1 ts2 .
  have kept: "\<forall>x\<in>set (pendingTransactions d1).
             id_tx x \<noteq> id_tx t1 \<longrightarrow> x \<in> set (pendingTransactions d1')"
    using R1(3) store_put_keeps [of _ "pendingTransactions d1" id_tx t1] by simp
  show ?thesis using ids kept by blast
qed

theorem enqueue_identifier_witness:
  "addPendingTransaction show_int ''uuid-9'' 1000 input_a db_empty
     = (Inr tx_a, db_empty\<lparr>pendingTransactions := [tx_a]\<rparr>)
   \<and> addPendingTransaction show_int ''uuid-9'' 1000 input_a'
       (db_empty\<lparr>pendingTransactions := [tx_a]\<rparr>)
     = (Inr tx_a', db_empty\<lparr>pendingTransactions := [tx_a']\<rparr>)
   \<and> timestamp tx_a = timestamp tx_a' \<and> hash tx_a = hash tx_a'
   \<and> id_tx tx_a = id_tx tx_a'"
proof -
  note T = enqueue_identifier [OF enqueue_a enqueue_a']
  have "timestamp tx_a = timestamp tx_a' \<and> hash tx_a = hash tx_a'" by (simp add: tx_a'_def)
  then show ?thesis using T enqueue_a enqueue_a' by blast
qed

section \<open>The recipient cache (claim C7)\<close>

text \<open>
  The store \<^verbatim>\<open>cachedRecipients\<close> has \<^verbatim>\<open>keyPath: "id"\<close> and a non-unique index
  \<^verbatim>\<open>by-payment-id\<close>. \<^verbatim>\<open>getAllFromIndex\<close> on that index returns the records with the
  given payment id in ascending order of their key. \<open>now\<close> is \<^verbatim>\<open>Date.now()\<close>.
\<close>

definition db_put_rc :: "CachedRecipient \<Rightarrow> 'n db \<Rightarrow> (error + unit) \<times> 'n db" where
  "db_put_rc r =
     request (\<lambda>d. ((), d\<lparr>cachedRecipients := store_put id_rc r (cachedRecipients d)\<rparr>))"

definition db_getAllFromIndex_rc :: "string \<Rightarrow> 'n db \<Rightarrow> (error + CachedRecipient list) \<times> 'n db" where
  "db_getAllFromIndex_rc v =
     request (\<lambda>d. (filter (\<lambda>r. payment_id r = v) (cachedRecipients d), d))"

definition cacheRecipient :: "nat \<Rightarrow> RecipientInput \<Rightarrow> 'n db \<Rightarrow> (error + unit) \<times> 'n db" where
  "cacheRecipient now recipient =
     db_put_rc (RecipientInput.extend recipient (CachedRecipient.fields now))"

definition getCachedRecipientByPaymentId ::
    "string \<Rightarrow> 'n db \<Rightarrow> (error + CachedRecipient option) \<times> 'n db" where
  "getCachedRecipientByPaymentId paymentId =
     and_then (db_getAllFromIndex_rc paymentId) (\<lambda>results d.
       (Inr (if length results > 0 then Some (results ! 0) else None), d))"

text \<open>Two profiles with the same payment id, and the cache after caching the first at
  time 10 and the second at time 20.\<close>

definition rc_1 :: RecipientInput where
  "rc_1 = \<lparr>id_rc = ''profile-1'', user_id = ''bob'', display_name = Some ''Bob'',
     payment_id = ''PAY-BOB''\<rparr>"

definition rc_2 :: RecipientInput where
  "rc_2 = \<lparr>id_rc = ''profile-2'', user_id = ''robert'', display_name = None,
     payment_id = ''PAY-BOB''\<rparr>"

definition db_rc :: "int db" where
  "db_rc = db_empty\<lparr>cachedRecipients :=
     [RecipientInput.extend rc_1 (CachedRecipient.fields 10),
      RecipientInput.extend rc_2 (CachedRecipient.fields 20)]\<rparr>"

lemma cache_runs:
  "cacheRecipient 10 rc_1 db_empty
     = (Inr (), db_empty\<lparr>cachedRecipients :=
          [RecipientInput.extend rc_1 (CachedRecipient.fields 10)]\<rparr>)"
  "cacheRecipient 20 rc_2
       (db_empty\<lparr>cachedRecipients := [RecipientInput.extend rc_1 (CachedRecipient.fields 10)]\<rparr>)
     = (Inr (), db_rc)"
  "getCachedRecipientByPaymentId ''PAY-BOB'' db_rc
     = (Inr (Some (RecipientInput.extend rc_1 (CachedRecipient.fields 10))), db_rc)"
  "getCachedRecipientByPaymentId ''PAY-EVE'' db_rc = (Inr None, db_rc)"
  by (simp_all add: cacheRecipient_def getCachedRecipientByPaymentId_def db_put_rc_def
      db_getAllFromIndex_rc_def and_then_def request_def db_rc_def db_empty_def rc_1_def rc_2_def
      RecipientInput.defs CachedRecipient.defs)

text \<open>
  Claim C7 fails as stated: after both profiles are cached, two records with the payment
  id \<open>PAY-BOB\<close> are in the cache, and the lookup returns the one cached first, not the
  one cached last.
\<close>

theorem two_records_one_payment_id:
  "cacheRecipient 10 rc_1 db_empty
     = (Inr (), db_empty\<lparr>cachedRecipients :=
          [RecipientInput.extend rc_1 (CachedRecipient.fields 10)]\<rparr>)
   \<and> cacheRecipient 20 rc_2
       (db_empty\<lparr>cachedRecipients := [RecipientInput.extend rc_1 (CachedRecipient.fields 10)]\<rparr>)
     = (Inr (), db_rc)
   \<and> length (filter (\<lambda>r. payment_id r = ''PAY-BOB'') (cachedRecipients db_rc)) = 2
   \<and> fst (getCachedRecipientByPaymentId ''PAY-BOB'' db_rc)
       = Inr (Some (RecipientInput.extend rc_1 (CachedRecipient.fields 10)))
   \<and> cached_at (RecipientInput.extend rc_1 (CachedRecipient.fields 10)) = 10
   \<and> cached_at (RecipientInput.extend rc_2 (CachedRecipient.fields 20)) = 20"
proof -
  have "length (filter (\<lambda>r. payment_id r = ''PAY-BOB'') (cachedRecipients db_rc)) = 2
   \<and> cached_at (RecipientInput.extend rc_1 (CachedRecipient.fields 10)) = 10
   \<and> cached_at (RecipientInput.extend rc_2 (CachedRecipient.fields 20)) = 20"
    by (simp add: db_rc_def db_empty_def rc_1_def rc_2_def RecipientInput.defs
        CachedRecipient.defs)
  then show ?thesis using cache_runs by simp
qed


lemma filter_first_least:
  "store_ok key xs \<Longrightarrow> filter P xs = r # rs \<Longrightarrow>
     r \<in> set xs \<and> P r \<and> (\<forall>x\<in>set xs. P x \<longrightarrow> key r \<le> key x)"
proof (induction xs)
  case Nil
  then show ?case by simp
next
  case (Cons a xs)
  have tail: "store_ok key xs" and above: "\<forall>y\<in>set xs. key a < key y"
    using Cons.prems(1) by (simp_all add: store_ok_def)
  show ?case
  proof (cases "P a")
    case True
    then have "r = a" using Cons.prems(2) by simp
    then show ?thesis using True above by (auto simp: less_imp_le)
  next
    case False
    then have "filter P xs = r # rs" using Cons.prems(2) by simp
    from Cons.IH [OF tail this] show ?thesis using False by auto
  qed
qed

text \<open>
  Claim C7, as amended. The cache holds at most one record per record id: caching a
  profile stores it with the time of caching under its id, replaces the record that had
  this id, and leaves the records with other ids as they were. The lookup by payment id
  changes nothing; it returns none exactly when no cached record has the payment id, and
  otherwise the cached record that has it and whose id is least. When no two cached
  records share a payment id, this is the one record with that payment id.
\<close>

theorem recipient_cache:
  assumes ok: "store_ok id_rc (cachedRecipients d)"
    and put: "cacheRecipient now recipient d = (Inr (), d1)"
    and get: "getCachedRecipientByPaymentId p d = (Inr res, d2)"
  shows "store_ok id_rc (cachedRecipients d1)
       \<and> (\<forall>x\<in>set (cachedRecipients d1). \<forall>y\<in>set (cachedRecipients d1).
             id_rc x = id_rc y \<longrightarrow> x = y)
       \<and> (\<forall>j. store_get id_rc j (cachedRecipients d1) =
               (if j = id_rc recipient
                then Some (RecipientInput.extend recipient (CachedRecipient.fields now))
                else store_get id_rc j (cachedRecipients d)))
       \<and> cachedRecipients d2 = cachedRecipients d
       \<and> (res = None \<longleftrightarrow> (\<forall>x\<in>set (cachedRecipients d). payment_id x \<noteq> p))
       \<and> (\<forall>r. res = Some r \<longrightarrow>
             r \<in> set (cachedRecipients d) \<and> payment_id r = p
             \<and> (\<forall>x\<in>set (cachedRecipients d). payment_id x = p \<longrightarrow> id_rc r \<le> id_rc x))
       \<and> ((\<forall>x\<in>set (cachedRecipients d). \<forall>y\<in>set (cachedRecipients d).
               payment_id x = payment_id y \<longrightarrow> x = y) \<longrightarrow>
            (\<forall>r\<in>set (cachedRecipients d). payment_id r = p \<longrightarrow> res = Some r))"
proof -
  let ?new = "RecipientInput.extend recipient (CachedRecipient.fields now)"
  let ?xs = "cachedRecipients d"
  have key: "id_rc ?new = id_rc recipient"
    by (simp add: RecipientInput.defs CachedRecipient.defs)
  have d1: "cachedRecipients d1 = store_put id_rc ?new ?xs"
    using put
    by (auto simp: cacheRecipient_def db_put_rc_def request_def split: list.splits if_splits)
  have ok1: "store_ok id_rc (cachedRecipients d1)"
    unfolding d1 by (rule store_put_ok [OF ok])
  have one: "\<forall>x\<in>set (cachedRecipients d1). \<forall>y\<in>set (cachedRecipients d1).
             id_rc x = id_rc y \<longrightarrow> x = y"
    using store_ok_inj [OF ok1] by blast
  have upsert: "\<forall>j. store_get id_rc j (cachedRecipients d1) =
               (if j = id_rc recipient then Some ?new else store_get id_rc j ?xs)"
    unfolding d1 by (simp add: store_get_put key)
  let ?results = "filter (\<lambda>r. payment_id r = p) ?xs"
  have g: "cachedRecipients d2 = ?xs
      \<and> res = (if length ?results > 0 then Some (?results ! 0) else None)"
    using get
    by (auto simp: getCachedRecipientByPaymentId_def db_getAllFromIndex_rc_def and_then_def
        request_def split: list.splits if_splits)
  have none: "res = None \<longleftrightarrow> (\<forall>x\<in>set ?xs. payment_id x \<noteq> p)"
    using g by (auto simp: filter_empty_conv)
  have some: "r \<in> set ?xs \<and> payment_id r = p
             \<and> (\<forall>x\<in>set ?xs. payment_id x = p \<longrightarrow> id_rc r \<le> id_rc x)"
    if "res = Some r" for r
  proof -
    have "?results \<noteq> [] \<and> ?results ! 0 = r"
      using g that by (auto split: if_splits)
    then obtain rs where "?results = r # rs"
      by (cases ?results) auto
    from filter_first_least [OF ok this] show ?thesis by simp
  qed
  have uniq: "\<forall>r\<in>set ?xs. payment_id r = p \<longrightarrow> res = Some r"
    if u: "\<forall>x\<in>set ?xs. \<forall>y\<in>set ?xs. payment_id x = payment_id y \<longrightarrow> x = y"
  proof (intro ballI impI)
    fix r assume r: "r \<in> set ?xs" "payment_id r = p"
    then have "res \<noteq> None" using none by auto
    then obtain r' where r': "res = Some r'" by auto
    then have "r' \<in> set ?xs" "payment_id r' = p" using some by auto
    then have "r' = r" using u r by auto
    then show "res = Some r" using r' by simp
  qed
  show ?thesis using ok1 one upsert g none some uniq by blast
qed

theorem recipient_cache_witness:
  "store_ok id_rc (cachedRecipients db_rc)
   \<and> cacheRecipient 30 rc_1 db_rc
       = (Inr (), db_rc\<lparr>cachedRecipients :=
            [RecipientInput.extend rc_1 (CachedRecipient.fields 30),
             RecipientInput.extend rc_2 (CachedRecipient.fields 20)]\<rparr>)
   \<and> getCachedRecipientByPaymentId ''PAY-BOB'' db_rc
       = (Inr (Some (RecipientInput.extend rc_1 (CachedRecipient.fields 10))), db_rc)
   \<and> getCachedRecipientByPaymentId ''PAY-EVE'' db_rc = (Inr None, db_rc)
   \<and> id_rc (RecipientInput.extend rc_1 (CachedRecipient.fields 10))
       \<le> id_rc (RecipientInput.extend rc_2 (CachedRecipient.fields 20))"
proof -
  have ok: "store_ok id_rc (cachedRecipients db_rc)"
    by (simp add: store_ok_def db_rc_def db_empty_def rc_1_def rc_2_def RecipientInput.defs
        CachedRecipient.defs)
  have put: "cacheRecipient 30 rc_1 db_rc
       = (Inr (), db_rc\<lparr>cachedRecipients :=
            [RecipientInput.extend rc_1 (CachedRecipient.fields 30),
             RecipientInput.extend rc_2 (CachedRecipient.fields 20)]\<rparr>)"
    by (simp add: cacheRecipient_def db_put_rc_def request_def db_rc_def db_empty_def
        rc_1_def rc_2_def RecipientInput.defs CachedRecipient.defs)
  have le: "id_rc (RecipientInput.extend rc_1 (CachedRecipient.fields 10))
       \<le> id_rc (RecipientInput.extend rc_2 (CachedRecipient.fields 20))"
    by (simp add: rc_1_def rc_2_def RecipientInput.defs CachedRecipient.defs)
  note T = recipient_cache [OF ok put cache_runs(3)]
  show ?thesis using T ok put cache_runs(3,4) le by blast
qed

end
